theory Spec2Isabelle
  imports Main "HOL-Library.Word" "HOL-Library.Sublist" "HOL-Library.AList"
begin

section \<open>JavaScript strings\<close>

text \<open>
  A JavaScript string is a sequence of 16-bit code units. The regular expressions of
  \<^verbatim>\<open>server.js\<close> carry no \<^verbatim>\<open>u\<close> flag, so they too work on code units.
\<close>

type_synonym cu = "16 word"
type_synonym jsstring = "cu list"

definition lit :: "string \<Rightarrow> jsstring" where
  \<comment> \<open>an ASCII literal of the source, as code units\<close>
  "lit s = map (\<lambda>c. of_nat (of_char c)) s"

definition NL :: cu where
  "NL = 10"

definition is_space :: "cu \<Rightarrow> bool" where
  \<comment> \<open>the class \<^verbatim>\<open>\s\<close> of ECMAScript (WhiteSpace and LineTerminator), which is also
      the set that \<^verbatim>\<open>String.prototype.trim\<close> removes\<close>
  "is_space c \<longleftrightarrow>
     c = 9 \<or> c = 10 \<or> c = 11 \<or> c = 12 \<or> c = 13 \<or> c = 32 \<or> c = 160 \<or> c = 5760
     \<or> (8192 \<le> c \<and> c \<le> 8202) \<or> c = 8232 \<or> c = 8233 \<or> c = 8239 \<or> c = 8287
     \<or> c = 12288 \<or> c = 65279"

definition non_space :: "cu \<Rightarrow> bool" where
  \<comment> \<open>the class \<^verbatim>\<open>[\S]\<close>\<close>
  "non_space c \<longleftrightarrow> \<not> is_space c"

definition is_lower :: "cu \<Rightarrow> bool" where
  \<comment> \<open>the class \<^verbatim>\<open>[a-z]\<close>\<close>
  "is_lower c \<longleftrightarrow> 97 \<le> c \<and> c \<le> 122"

definition is_word :: "cu \<Rightarrow> bool" where
  \<comment> \<open>the class \<^verbatim>\<open>\w\<close>, that is \<^verbatim>\<open>[A-Za-z0-9_]\<close>\<close>
  "is_word c \<longleftrightarrow> (97 \<le> c \<and> c \<le> 122) \<or> (65 \<le> c \<and> c \<le> 90) \<or> (48 \<le> c \<and> c \<le> 57) \<or> c = 95"

definition trim :: "jsstring \<Rightarrow> jsstring" where
  \<comment> \<open>\<^verbatim>\<open>String.prototype.trim\<close>\<close>
  "trim s = rev (dropWhile is_space (rev (dropWhile is_space s)))"

fun contains :: "'a list \<Rightarrow> 'a list \<Rightarrow> bool" where
  \<comment> \<open>\<open>contains m s\<close>: the text \<open>m\<close> occurs in \<open>s\<close> (\<^verbatim>\<open>s.includes(m)\<close>)\<close>
  "contains m [] = (m = [])"
| "contains m (c # s) = (prefix m (c # s) \<or> contains m s)"


section \<open>Backtracking: the order in which a regular expression tries its alternatives\<close>

fun first_some :: "('a \<Rightarrow> 'b option) \<Rightarrow> 'a list \<Rightarrow> 'b option" where
  \<comment> \<open>the first candidate, in the order of the list, on which the rest of the pattern matches\<close>
  "first_some f [] = None"
| "first_some f (x # xs) = (case f x of Some y \<Rightarrow> Some y | None \<Rightarrow> first_some f xs)"

fun lit_match :: "'a list \<Rightarrow> 'a list \<Rightarrow> 'a list option" where
  \<comment> \<open>a literal of the pattern at the head of the input: what follows it, or no match\<close>
  "lit_match [] s = Some s"
| "lit_match (m # ms) [] = None"
| "lit_match (m # ms) (c # s) = (if m = c then lit_match ms s else None)"

definition greedy_plus :: "('a \<Rightarrow> bool) \<Rightarrow> 'a list \<Rightarrow> nat list" where
  \<comment> \<open>the lengths a greedy \<^verbatim>\<open>C+\<close> tries: the longest run first, down to one unit\<close>
  "greedy_plus C s = rev [1 ..< Suc (length (takeWhile C s))]"

definition greedy_star :: "('a \<Rightarrow> bool) \<Rightarrow> 'a list \<Rightarrow> nat list" where
  \<comment> \<open>the lengths a greedy \<^verbatim>\<open>C*\<close> tries: the longest run first, down to none\<close>
  "greedy_star C s = rev [0 ..< Suc (length (takeWhile C s))]"

definition lazy_star_any :: "'a list \<Rightarrow> nat list" where
  \<comment> \<open>the lengths the lazy \<^verbatim>\<open>[\s\S]*?\<close> tries: none first, up to the whole input\<close>
  "lazy_star_any s = [0 ..< Suc (length s)]"

definition greedy_plus_any :: "'a list \<Rightarrow> nat list" where
  \<comment> \<open>the lengths the greedy \<^verbatim>\<open>[\s\S]+\<close> tries: the whole input first, down to one unit\<close>
  "greedy_plus_any s = rev [1 ..< Suc (length s)]"


section \<open>The whole-project response parser\<close>

definition START_FILE :: jsstring where
  "START_FILE = lit ''// START_FILE: ''"

definition END_FILE :: jsstring where
  "END_FILE = lit ''// END_FILE: ''"

definition FENCE :: jsstring where
  "FENCE = lit ''```''"

text \<open>
  \<^verbatim>\<open>fileRegex = /\/\/ START_FILE: ([\S]+)\n([\s\S]*?)\n\/\/ END_FILE: \1/g\<close>
  tried at the head of \<open>s\<close>: the two captures and the input after the match.
\<close>

definition fileRegex_at :: "jsstring \<Rightarrow> (jsstring \<times> jsstring \<times> jsstring) option" where
  "fileRegex_at s =
     (case lit_match START_FILE s of
        None \<Rightarrow> None
      | Some r1 \<Rightarrow>
          first_some (\<lambda>k.
            case lit_match [NL] (drop k r1) of
              None \<Rightarrow> None
            | Some r2 \<Rightarrow>
                first_some (\<lambda>j.
                  case lit_match (NL # END_FILE @ take k r1) (drop j r2) of
                    None \<Rightarrow> None
                  | Some rest \<Rightarrow> Some (take k r1, take j r2, rest))
                  (lazy_star_any r2))
            (greedy_plus non_space r1))"

text \<open>
  \<^verbatim>\<open>fileRegex.exec\<close>: the match at the leftmost position at or after \<open>lastIndex\<close>; the
  input is given from \<open>lastIndex\<close> on, and the result carries the input from the new
  \<open>lastIndex\<close> (the end of the match) on.
\<close>

fun fileRegex_exec :: "jsstring \<Rightarrow> (jsstring \<times> jsstring \<times> jsstring) option" where
  "fileRegex_exec [] = fileRegex_at []"
| "fileRegex_exec (c # s) =
     (case fileRegex_at (c # s) of Some m \<Rightarrow> Some m | None \<Rightarrow> fileRegex_exec s)"

text \<open>
  \<^verbatim>\<open>markdownFenceRegex = /^\s*```[a-z]*\n([\s\S]*?)\n```\s*$/\<close> under
  \<^verbatim>\<open>fileContent.match\<close>: without the \<^verbatim>\<open>m\<close> flag \<^verbatim>\<open>^\<close> holds at index 0 only and
  \<^verbatim>\<open>$\<close> at the end of the input only. The result is capture 1.
\<close>

definition fence_tail :: "jsstring \<Rightarrow> jsstring \<Rightarrow> jsstring option" where
  \<comment> \<open>the end \<^verbatim>\<open>\s*$\<close> of the pattern on the input \<open>r3\<close>, with capture 1 already \<open>g\<close>\<close>
  "fence_tail g r3 =
     first_some (\<lambda>w. if drop w r3 = [] then Some g else None) (greedy_star is_space r3)"

definition markdownFence_match :: "jsstring \<Rightarrow> jsstring option" where
  "markdownFence_match s =
     first_some (\<lambda>k.
       case lit_match FENCE (drop k s) of
         None \<Rightarrow> None
       | Some r1 \<Rightarrow>
           first_some (\<lambda>m.
             case lit_match [NL] (drop m r1) of
               None \<Rightarrow> None
             | Some r2 \<Rightarrow>
                 first_some (\<lambda>j.
                   case lit_match (NL # FENCE) (drop j r2) of
                     None \<Rightarrow> None
                   | Some r3 \<Rightarrow> fence_tail (take j r2) r3)
                   (lazy_star_any r2))
             (greedy_star is_lower r1))
       (greedy_star is_space s)"

record ConvertedFile =
  path :: jsstring
  content :: jsstring

definition convert_block :: "jsstring \<Rightarrow> jsstring \<Rightarrow> ConvertedFile" where
  \<comment> \<open>the body of the \<^verbatim>\<open>while\<close> loop of \<^verbatim>\<open>parseAIResponse\<close>\<close>
  "convert_block filePath fileContent =
     (let fileContent' = (case markdownFence_match fileContent of
                            Some inner \<Rightarrow> inner
                          | None \<Rightarrow> fileContent)
      in \<lparr>path = filePath, content = trim fileContent'\<rparr>)"

lemma lit_match_length: "lit_match m s = Some r \<Longrightarrow> length s = length m + length r"
  by (induction m s rule: lit_match.induct) (auto split: if_splits)

lemma lit_match_eq: "lit_match m s = Some r \<longleftrightarrow> s = m @ r"
  by (induction m s rule: lit_match.induct) auto

lemma first_some_SomeD: "first_some f xs = Some y \<Longrightarrow> \<exists>x \<in> set xs. f x = Some y"
  by (induction xs) (auto split: option.splits)

lemma START_FILE_length: "length START_FILE = 15"
  by (simp add: START_FILE_def lit_def)

lemma fileRegex_at_shorter:
  assumes "fileRegex_at s = Some (p, c, rest)"
  shows "length rest < length s"
proof -
  from assms obtain r1 where r1: "lit_match START_FILE s = Some r1"
    by (auto simp: fileRegex_at_def split: option.splits)
  with assms obtain k r2 j where
    "lit_match [NL] (drop k r1) = Some r2"
    "lit_match (NL # END_FILE @ take k r1) (drop j r2) = Some rest"
    by (auto simp: fileRegex_at_def split: option.splits dest!: first_some_SomeD)
  then have "length rest \<le> length r1"
    by (auto dest!: lit_match_length)
  moreover have "length s = 15 + length r1"
    using r1 by (auto dest!: lit_match_length simp: START_FILE_length)
  ultimately show ?thesis by simp
qed

lemma fileRegex_exec_shorter:
  "fileRegex_exec s = Some (p, c, rest) \<Longrightarrow> length rest < length s"
proof (induction s)
  case Nil
  then show ?case by (auto dest: fileRegex_at_shorter)
next
  case (Cons a s)
  then show ?case
    by (cases "fileRegex_at (a # s)") (auto dest: fileRegex_at_shorter)
qed

text \<open>
  \<^verbatim>\<open>parseAIResponse\<close>: the loop \<^verbatim>\<open>while ((match = fileRegex.exec(responseText)) !== null)\<close>.
  A match is never empty, so \<open>lastIndex\<close> advances and the loop ends.
\<close>

function parseAIResponse_from :: "jsstring \<Rightarrow> ConvertedFile list" where
  "parseAIResponse_from s =
     (case fileRegex_exec s of
        None \<Rightarrow> []
      | Some (filePath, fileContent, rest) \<Rightarrow>
          convert_block filePath fileContent # parseAIResponse_from rest)"
  by pat_completeness auto
termination
  by (relation "measure length") (auto dest: fileRegex_exec_shorter)

definition parseAIResponse :: "jsstring \<Rightarrow> ConvertedFile list" where
  "parseAIResponse responseText = parseAIResponse_from responseText"

declare parseAIResponse_from.simps [simp del]


section \<open>The per-file response parser\<close>

text \<open>
  \<^verbatim>\<open>codeBlockRegex = /```(?:\w+\n)?([\s\S]+)```/\<close> tried at the head of \<open>s\<close>: capture 1.
  The optional group is greedy: the pattern is tried with it first, then without it.
\<close>

definition codeBlockRegex_at :: "jsstring \<Rightarrow> jsstring option" where
  "codeBlockRegex_at s =
     (case lit_match FENCE s of
        None \<Rightarrow> None
      | Some r1 \<Rightarrow>
          (case first_some (\<lambda>k.
                  case lit_match [NL] (drop k r1) of
                    None \<Rightarrow> None
                  | Some r2 \<Rightarrow>
                      first_some (\<lambda>j.
                        case lit_match FENCE (drop j r2) of
                          None \<Rightarrow> None
                        | Some _ \<Rightarrow> Some (take j r2))
                        (greedy_plus_any r2))
                  (greedy_plus is_word r1) of
             Some g \<Rightarrow> Some g
           | None \<Rightarrow>
               first_some (\<lambda>j.
                 case lit_match FENCE (drop j r1) of
                   None \<Rightarrow> None
                 | Some _ \<Rightarrow> Some (take j r1))
                 (greedy_plus_any r1)))"

text \<open>\<^verbatim>\<open>text.match(codeBlockRegex)\<close>: the match at the leftmost position, if any.\<close>

fun codeBlockRegex_match :: "jsstring \<Rightarrow> jsstring option" where
  "codeBlockRegex_match [] = codeBlockRegex_at []"
| "codeBlockRegex_match (c # s) =
     (case codeBlockRegex_at (c # s) of Some g \<Rightarrow> Some g | None \<Rightarrow> codeBlockRegex_match s)"

definition parseCodeFromResponse :: "jsstring \<Rightarrow> jsstring" where
  \<comment> \<open>\<^verbatim>\<open>match && match[1] ? match[1].trim() : text.trim()\<close>: an empty string is falsy\<close>
  "parseCodeFromResponse text =
     (case codeBlockRegex_match text of
        Some g \<Rightarrow> if g \<noteq> [] then trim g else trim text
      | None \<Rightarrow> trim text)"


section \<open>The file system below the shared temporary directory\<close>

text \<open>
  A path is the list of its segments below \<^verbatim>\<open>tempDir\<close>, so \<^verbatim>\<open>path.join(dir, file)\<close> is
  \<open>dir @ [file]\<close>. A directory lists its entries in the order of \<^verbatim>\<open>fs.readdirSync\<close>.
\<close>

type_synonym name = jsstring
type_synonym fpath = "name list"
type_synonym bytes = "8 word list"

datatype node = File bytes | Dir "(name \<times> node) list"

type_synonym entries = "(name \<times> node) list"

definition node_modules :: name where
  "node_modules = lit ''node_modules''"

definition dot_git :: name where
  "dot_git = lit ''.git''"

fun getAllFilePaths :: "fpath \<Rightarrow> entries \<Rightarrow> fpath list" where
  \<comment> \<open>\<open>getAllFilePaths dir list\<close> with \<open>list\<close> the result of \<^verbatim>\<open>fs.readdirSync(dir)\<close>\<close>
  "getAllFilePaths dir [] = []"
| "getAllFilePaths dir ((file, File b) # list) = (dir @ [file]) # getAllFilePaths dir list"
| "getAllFilePaths dir ((file, Dir sub) # list) =
     (if file \<noteq> node_modules \<and> file \<noteq> dot_git
      then getAllFilePaths (dir @ [file]) sub else [])
     @ getAllFilePaths dir list"

fun readdirSync :: "entries \<Rightarrow> fpath \<Rightarrow> entries option" where
  \<comment> \<open>the entries of the directory at a path; \<open>None\<close> when there is no such directory\<close>
  "readdirSync es [] = Some es"
| "readdirSync es (n # p) =
     (case map_of es n of Some (Dir sub) \<Rightarrow> readdirSync sub p | _ \<Rightarrow> None)"

fun readFileSync :: "entries \<Rightarrow> fpath \<Rightarrow> bytes option" where
  \<comment> \<open>the bytes of the regular file at a path; \<open>None\<close> when the call throws\<close>
  "readFileSync es [] = None"
| "readFileSync es [n] = (case map_of es n of Some (File b) \<Rightarrow> Some b | _ \<Rightarrow> None)"
| "readFileSync es (n # p) =
     (case map_of es n of Some (Dir sub) \<Rightarrow> readFileSync sub p | _ \<Rightarrow> None)"

fun writeFileSync :: "entries \<Rightarrow> fpath \<Rightarrow> bytes \<Rightarrow> entries option" where
  \<comment> \<open>replaces or creates the file at a path; \<open>None\<close> when the call throws (the path is a
      directory, or its parent is not one)\<close>
  "writeFileSync es [] b = None"
| "writeFileSync es [n] b =
     (case map_of es n of
        Some (Dir sub) \<Rightarrow> None
      | _ \<Rightarrow> Some (AList.update n (File b) es))"
| "writeFileSync es (n # p) b =
     (case map_of es n of
        Some (Dir sub) \<Rightarrow>
          (case writeFileSync sub p b of
             None \<Rightarrow> None
           | Some sub' \<Rightarrow> Some (AList.update n (Dir sub') es))
      | _ \<Rightarrow> None)"

definition existsSync :: "entries \<Rightarrow> name \<Rightarrow> bool" where
  \<comment> \<open>\<^verbatim>\<open>fs.existsSync\<close> of an entry of \<^verbatim>\<open>tempDir\<close>\<close>
  "existsSync es n \<longleftrightarrow> map_of es n \<noteq> None"

definition rmSync :: "entries \<Rightarrow> name \<Rightarrow> entries" where
  \<comment> \<open>\<^verbatim>\<open>fs.rmSync(dir, { recursive: true, force: true })\<close> of an entry of \<^verbatim>\<open>tempDir\<close>\<close>
  "rmSync es n = filter (\<lambda>(m, t). m \<noteq> n) es"


definition agree_except :: "fpath \<Rightarrow> entries \<Rightarrow> entries \<Rightarrow> bool" where
  \<comment> \<open>two states of the disk hold the same files with the same bytes, but for the file \<open>p\<close>\<close>
  "agree_except p d d' \<longleftrightarrow> (\<forall>x. x \<noteq> p \<longrightarrow> readFileSync d x = readFileSync d' x)"


section \<open>Requests, responses and the collaborators of the handlers\<close>

record upload =
  name :: jsstring
  data :: bytes
  mimetype :: jsstring

record request =
  sourceCode :: "upload option"   \<comment> \<open>\<^verbatim>\<open>req.files.sourceCode\<close>\<close>
  projectZip :: "upload option"   \<comment> \<open>\<^verbatim>\<open>req.files.projectZip\<close>\<close>
  targetStack :: "jsstring option"   \<comment> \<open>\<^verbatim>\<open>req.body.targetStack\<close>\<close>
  now :: nat   \<comment> \<open>\<^verbatim>\<open>Date.now()\<close> when the request is handled\<close>

text \<open>
  What the handlers call and this repository does not define: the environment variable,
  \<^verbatim>\<open>path.extname\<close>, the UTF-8 codec of \<^verbatim>\<open>fs\<close> and \<^verbatim>\<open>Buffer\<close>, the archive library and the
  model endpoint. \<open>extractAllTo\<close> stands for \<^verbatim>\<open>new AdmZip(data)\<close> followed by
  \<^verbatim>\<open>zip.extractAllTo(extractPath, true)\<close>: it gives the new contents of \<^verbatim>\<open>tempDir\<close> and
  whether it threw. \<open>generateContent\<close> gives the text of the model's answer to a prompt,
  or \<open>None\<close> when the call throws; its first argument counts the calls already made.
  \<open>addFile_throws\<close> tells whether building the output archive from converted files
  (\<^verbatim>\<open>outputZip.addFile\<close> for each of them, then \<^verbatim>\<open>outputZip.toBuffer()\<close>) throws,
  \<open>addLocalFolder_throws\<close> the same for \<^verbatim>\<open>outputZip.addLocalFolder(extractPath)\<close> and
  \<^verbatim>\<open>outputZip.toBuffer()\<close> on the folder as it is on the disk, and \<open>set_throws\<close> whether
  \<^verbatim>\<open>res.set(field, value)\<close> throws on a value. All of them are called inside the \<^verbatim>\<open>try\<close>
  block of a handler. What a call throws is taken to be an object, so that the
  \<^verbatim>\<open>error.message\<close> of the per-file \<^verbatim>\<open>catch\<close> can be read, and \<^verbatim>\<open>res.send\<close> of a buffer is
  taken not to throw.
\<close>

record env =
  GEMINI_API_KEY :: bool
  extname :: "fpath \<Rightarrow> jsstring"
  utf8_decode :: "bytes \<Rightarrow> jsstring"
  utf8_encode :: "jsstring \<Rightarrow> bytes"
  extractAllTo :: "bytes \<Rightarrow> fpath \<Rightarrow> entries \<Rightarrow> entries \<times> bool"
  generateContent :: "nat \<Rightarrow> jsstring \<Rightarrow> jsstring option"
  addFile_throws :: "(jsstring \<times> bytes) list \<Rightarrow> bool"
  addLocalFolder_throws :: "entries \<Rightarrow> bool"
  set_throws :: "jsstring \<Rightarrow> bool"

datatype response =
    Json nat jsstring   \<comment> \<open>\<^verbatim>\<open>res.status(n).json({ error: message })\<close>\<close>
  | ZipFiles jsstring "(jsstring \<times> bytes) list"
      \<comment> \<open>an archive built with \<^verbatim>\<open>addFile\<close>, sent under a file name\<close>
  | ZipFolder jsstring entries
      \<comment> \<open>an archive built with \<^verbatim>\<open>addLocalFolder\<close>, sent under a file name\<close>

datatype effect =
    ExtractAllTo fpath
  | GenerateContent jsstring
  | WriteFileSync fpath
  | ConsoleError fpath
      \<comment> \<open>the \<^verbatim>\<open>console.error\<close> of the per-file \<^verbatim>\<open>catch\<close>, which names the file kept as it was\<close>
  | RmSync name

record run =
  disk :: entries   \<comment> \<open>the contents of \<^verbatim>\<open>tempDir\<close>\<close>
  calls :: nat   \<comment> \<open>the model invocations made so far\<close>
  trace :: "effect list"   \<comment> \<open>what the handler has done so far, in order\<close>

definition CODE_EXTENSIONS :: "jsstring list" where
  "CODE_EXTENSIONS = [lit ''.js'', lit ''.jsx'', lit ''.ts'', lit ''.tsx'', lit ''.vue'',
     lit ''.svelte'', lit ''.html'', lit ''.css'', lit ''.scss'', lit ''.json'', lit ''.md'']"

definition codeFiles_of :: "env \<Rightarrow> fpath list \<Rightarrow> fpath list" where
  \<comment> \<open>\<^verbatim>\<open>allFiles.filter(file => CODE_EXTENSIONS.has(path.extname(file)))\<close>\<close>
  "codeFiles_of e allFiles = filter (\<lambda>file. extname e file \<in> set CODE_EXTENSIONS) allFiles"

fun decimal :: "nat \<Rightarrow> jsstring" where
  \<comment> \<open>a number in a template literal\<close>
  "decimal n = (if n < 10 then [of_nat (48 + n)] else decimal (n div 10) @ [of_nat (48 + n mod 10)])"

declare decimal.simps [simp del]

definition requestTempDir :: "request \<Rightarrow> name" where
  \<comment> \<open>\<^verbatim>\<open>`request-${Date.now()}`\<close>, an entry of \<^verbatim>\<open>tempDir\<close>\<close>
  "requestTempDir req = lit ''request-'' @ decimal (now req)"

definition extractPath :: "request \<Rightarrow> fpath" where
  \<comment> \<open>\<^verbatim>\<open>path.join(requestTempDir, 'source')\<close>\<close>
  "extractPath req = [requestTempDir req, lit ''source'']"

fun join :: "jsstring \<Rightarrow> jsstring list \<Rightarrow> jsstring" where
  \<comment> \<open>\<^verbatim>\<open>Array.prototype.join\<close>\<close>
  "join sep [] = []"
| "join sep [x] = x"
| "join sep (x # xs) = x @ sep @ join sep xs"

definition relative :: "fpath \<Rightarrow> fpath \<Rightarrow> jsstring" where
  \<comment> \<open>\<^verbatim>\<open>path.relative(from, to).replace(/\\/g, '/')\<close> for a file below \<open>from\<close>: the segments
      with \<^verbatim>\<open>/\<close> between them, and every backslash, also one inside a name, made a \<^verbatim>\<open>/\<close>\<close>
  "relative from to =
     map (\<lambda>c. if c = 92 then 47 else c) (join (lit ''/'') (drop (length from) to))"

definition basename :: "fpath \<Rightarrow> jsstring" where
  \<comment> \<open>\<^verbatim>\<open>path.basename\<close>: the last segment\<close>
  "basename p = (if p = [] then [] else last p)"

definition msg_no_key :: jsstring where
  "msg_no_key = lit ''Server is not configured with a Gemini API key.''"

definition msg_no_sourceCode :: jsstring where
  \<open>msg_no_sourceCode = lit ''No .zip file was uploaded under the "sourceCode" field.''\<close>

definition msg_no_projectZip :: jsstring where
  \<open>msg_no_projectZip = lit ''No .zip file was uploaded under the "projectZip" field.''\<close>

definition msg_no_targetStack :: jsstring where
  \<open>msg_no_targetStack = lit ''The "targetStack" field is required.''\<close>

definition msg_invalid_type :: "jsstring \<Rightarrow> jsstring" where
  "msg_invalid_type m = lit ''Invalid file type: '' @ m @ lit ''. Please upload a .zip file.''"

definition msg_unparsable :: jsstring where
  "msg_unparsable = lit ''Conversion failed: The AI returned an unparsable response.''"

definition msg_server_error :: jsstring where
  "msg_server_error = lit ''Failed to convert project due to a server error.''"

definition attachment :: "upload \<Rightarrow> jsstring" where
  \<comment> \<open>the file name of \<^verbatim>\<open>Content-Disposition\<close>\<close>
  "attachment z = lit ''converted-'' @ name z"

definition content_type :: jsstring where
  \<comment> \<open>the value of \<^verbatim>\<open>res.set('Content-Type', ...)\<close>\<close>
  "content_type = lit ''application/zip''"

definition content_disposition :: "upload \<Rightarrow> jsstring" where
  \<comment> \<open>the value of \<^verbatim>\<open>res.set('Content-Disposition', ...)\<close>\<close>
  \<open>content_disposition z = lit ''attachment; filename="'' @ attachment z @ lit ''"''\<close>

definition send_archive :: "env \<Rightarrow> upload \<Rightarrow> bool \<Rightarrow> response \<Rightarrow> response" where
  \<comment> \<open>the end of a \<^verbatim>\<open>try\<close> block: the archive is built, the two headers are set, the
      archive is sent; an exception of any of these calls reaches the \<^verbatim>\<open>catch\<close>\<close>
  "send_archive e zipFile threw archive =
     (if threw then Json 500 msg_server_error
      else if set_throws e content_type then Json 500 msg_server_error
      else if set_throws e (content_disposition zipFile) then Json 500 msg_server_error
      else archive)"


section \<open>The whole-project handler\<close>

definition whole_project_prompt :: "jsstring \<Rightarrow> jsstring \<Rightarrow> jsstring" where
  \<comment> \<open>the template literal \<^verbatim>\<open>prompt\<close> of the whole-project handler\<close>
  \<open>whole_project_prompt ts fullProjectCode = concat
    [[NL],
     lit ''You are an expert AI software engineer. Your task is to perform a '',
     lit ''complete migration of the provided source code to a new, runnable '',
     lit ''project using '',
     ts,
     lit ''.'',
     [NL],
     [NL],
     lit ''You will be given the complete source code for a project, with each '',
     lit ''file clearly demarcated.'',
     [NL],
     [NL],
     lit ''**Your goal is to output a complete, runnable '',
     ts,
     lit '' project, not just a 1-to-1 file conversion.**'',
     [NL],
     [NL],
     lit ''**MANDATORY INSTRUCTIONS:**'',
     [NL],
     [NL],
     lit ''1.  **Convert Logic:** Convert all source files to be idiomatic for '',
     ts,
     lit '', preserving all logic and functionality.'',
     [NL],
     lit ''2.  **Create Folder Structure:** Organize all converted files into a '',
     lit ''standard, professional folder structure for a modern '',
     ts,
     lit '' project (e.g., for Vue/React, use a 'src' directory '',
     lit ''with 'components', 'assets', etc.).'',
     [NL],
     lit ''3.  **Generate 'package.json':** Create a new 'package.json' file. It '',
     lit ''must include:'',
     [NL],
     lit ''    * The correct main dependency (e.g., "react", "vue", "svelte").'',
     [NL],
     lit ''    * The necessary build tools as 'devDependencies' (e.g., "vite" and '',
     lit ''its plugins).'',
     [NL],
     lit ''    * Script commands for "dev" and "build".'',
     [NL],
     lit ''4.  **Generate Build Config:** Create any necessary build configuration '',
     lit ''files (e.g., 'vite.config.js').'',
     [NL],
     lit ''5.  **Generate 'index.html':** Create a new root 'index.html' file to '',
     lit ''load the new '',
     ts,
     lit '' application.'',
     [NL],
     lit ''6.  **Generate 'README.md':** Create a new 'README.md' file that '',
     lit ''includes:'',
     [NL],
     lit ''    * A title for the converted project.'',
     [NL],
     lit ''    * Simple setup instructions: 'npm install' and 'npm run dev'.'',
     [NL],
     lit ''7.  **Handle Imports:** Ensure all file imports/exports are updated to '',
     lit ''reflect the new file structure and syntax.'',
     [NL],
     [NL],
     lit ''**OUTPUT FORMAT:**'',
     [NL],
     lit ''- The output must *only* be the raw code for the new files.'',
     [NL],
     lit ''- Do not include *any* explanations or introductory text.'',
     [NL],
     lit ''- You *must* format your response as a series of files, using the '',
     lit ''following exact format for *every* file '',
     lit ''(including 'package.json', 'README.md', etc.):'',
     [NL],
     [NL],
     lit ''// START_FILE: path/to/new/file.js'',
     [NL],
     lit ''... (all the content for this file) ...'',
     [NL],
     lit ''// END_FILE: path/to/new/file.js'',
     [NL],
     [NL],
     lit ''---'',
     [NL],
     lit ''**ORIGINAL PROJECT SOURCE CODE:**'',
     [NL],
     lit ''---'',
     [NL],
     fullProjectCode,
     [NL],
     lit ''---'',
     [NL],
     lit ''    '']\<close>

fun projectContext :: "env \<Rightarrow> fpath \<Rightarrow> entries \<Rightarrow> fpath list \<Rightarrow> jsstring list option" where
  \<comment> \<open>the loop that fills \<^verbatim>\<open>projectContext\<close>; \<open>None\<close> when \<^verbatim>\<open>fs.readFileSync\<close> throws\<close>
  "projectContext e root d [] = Some []"
| "projectContext e root d (filePath # rest) =
     (case readFileSync d filePath of
        None \<Rightarrow> None
      | Some b \<Rightarrow>
          (case projectContext e root d rest of
             None \<Rightarrow> None
           | Some ctx \<Rightarrow>
               (let content = utf8_decode e b;
                    relativePath = relative root filePath
                in if trim content \<noteq> []
                   then Some ((lit ''File: '' @ relativePath @ [NL] @ FENCE @ [NL] @ content
                                @ [NL] @ FENCE) # ctx)
                   else Some ctx)))"

definition extract_archive :: "env \<Rightarrow> request \<Rightarrow> upload \<Rightarrow> run \<Rightarrow> bool \<times> run" where
  \<comment> \<open>step 1 of the \<^verbatim>\<open>try\<close> block; the flag tells that the archive library threw\<close>
  "extract_archive e req zipFile r =
     (let (d1, threw) = extractAllTo e (data zipFile) (extractPath req) (disk r)
      in (threw, r\<lparr>disk := d1, trace := trace r @ [ExtractAllTo (extractPath req)]\<rparr>))"

definition whole_project_steps :: "env \<Rightarrow> request \<Rightarrow> upload \<Rightarrow> jsstring \<Rightarrow> run \<Rightarrow> response \<times> run" where
  \<comment> \<open>steps 2 to 6 of the \<^verbatim>\<open>try\<close> block, on the extracted project\<close>
  "whole_project_steps e req zipFile ts r1 =
     (case readdirSync (disk r1) (extractPath req) of
        None \<Rightarrow> (Json 500 msg_server_error, r1)
      | Some list \<Rightarrow>
          (let allFiles = getAllFilePaths (extractPath req) list;
               codeFiles = codeFiles_of e allFiles
           in case projectContext e (extractPath req) (disk r1) codeFiles of
                None \<Rightarrow> (Json 500 msg_server_error, r1)
              | Some ctx \<Rightarrow>
                  (let fullProjectCode = join (lit ''\<newline>\<newline>---\<newline>\<newline>'') ctx;
                       prompt = whole_project_prompt ts fullProjectCode;
                       r2 = r1\<lparr>calls := Suc (calls r1),
                               trace := trace r1 @ [GenerateContent prompt]\<rparr>
                   in case generateContent e (calls r1) prompt of
                        None \<Rightarrow> (Json 500 msg_server_error, r2)
                      | Some aiResponseText \<Rightarrow>
                          (let convertedFiles = parseAIResponse aiResponseText
                           in if length convertedFiles = 0
                              then (Json 500 msg_unparsable, r2)
                              else
                                (let added = map (\<lambda>f. (path f, utf8_encode e (content f)))
                                               convertedFiles
                                 in (send_archive e zipFile (addFile_throws e added)
                                       (ZipFiles (attachment zipFile) added), r2))))))"

definition whole_project_try :: "env \<Rightarrow> request \<Rightarrow> upload \<Rightarrow> jsstring \<Rightarrow> run \<Rightarrow> response \<times> run" where
  \<comment> \<open>the \<^verbatim>\<open>try\<close> block with its \<^verbatim>\<open>catch\<close>: every exception gives the generic 500\<close>
  "whole_project_try e req zipFile ts r =
     (let (threw, r1) = extract_archive e req zipFile r
      in if threw then (Json 500 msg_server_error, r1)
         else whole_project_steps e req zipFile ts r1)"

definition cleanup :: "request \<Rightarrow> run \<Rightarrow> run" where
  \<comment> \<open>the \<^verbatim>\<open>finally\<close> block\<close>
  "cleanup req r =
     (if existsSync (disk r) (requestTempDir req)
      then r\<lparr>disk := rmSync (disk r) (requestTempDir req),
             trace := trace r @ [RmSync (requestTempDir req)]\<rparr>
      else r)"

definition convert_whole_project :: "env \<Rightarrow> request \<Rightarrow> run \<Rightarrow> response \<times> run" where
  \<comment> \<open>\<^verbatim>\<open>app.post('/convert', ...)\<close> of the whole-project server\<close>
  "convert_whole_project e req r =
     (if \<not> GEMINI_API_KEY e then (Json 500 msg_no_key, r)
      else case sourceCode req of
        None \<Rightarrow> (Json 400 msg_no_sourceCode, r)
      | Some zipFile \<Rightarrow>
          (case targetStack req of
             None \<Rightarrow> (Json 400 msg_no_targetStack, r)
           | Some ts \<Rightarrow>
               if ts = [] then (Json 400 msg_no_targetStack, r)
               else (let (res, r') = whole_project_try e req zipFile ts r
                     in (res, cleanup req r'))))"


section \<open>The per-file handler\<close>

definition per_file_prompt :: "jsstring \<Rightarrow> jsstring \<Rightarrow> jsstring \<Rightarrow> jsstring" where
  \<comment> \<open>the template literal \<^verbatim>\<open>prompt\<close> of the per-file handler\<close>
  \<open>per_file_prompt ts baseName originalContent = concat
    [lit ''You are an expert programmer specializing in frontend framework '',
     lit ''migration. Convert the following code snippet to '',
     ts,
     lit ''.'',
     [NL],
     lit ''        - Preserve the original logic, functionality, and file '',
     lit ''structure.'',
     [NL],
     lit ''        - Use modern best practices and idiomatic code for '',
     ts,
     lit ''.'',
     [NL],
     lit ''        - Ensure the converted code is fully functional and equivalent '',
     lit ''to the original.'',
     [NL],
     lit ''        - The output must be ONLY the raw code for the new file, '',
     lit ''without any explanations, introductions, or markdown code blocks.'',
     [NL],
     lit ''        '',
     [NL],
     lit ''        Original file content ('',
     baseName,
     lit ''):'',
     [NL],
     lit ''        ---'',
     [NL],
     lit ''        '',
     originalContent,
     [NL],
     lit ''        ---'',
     [NL],
     lit ''        '',
     [NL],
     lit ''        Converted '',
     ts,
     lit '' code:'']\<close>

definition convert_file :: "env \<Rightarrow> jsstring \<Rightarrow> fpath \<Rightarrow> jsstring \<Rightarrow> run \<Rightarrow> run" where
  \<comment> \<open>the body of the loop for a file that has content: the prompt, then the inner \<^verbatim>\<open>try\<close>
      with its \<^verbatim>\<open>catch\<close>, which takes what the model call and \<^verbatim>\<open>fs.writeFileSync\<close> throw
      and logs the file\<close>
  "convert_file e ts filePath originalContent r =
     (let prompt = per_file_prompt ts (basename filePath) originalContent;
          r1 = r\<lparr>calls := Suc (calls r), trace := trace r @ [GenerateContent prompt]\<rparr>;
          caught = r1\<lparr>trace := trace r1 @ [ConsoleError filePath]\<rparr>
      in case generateContent e (calls r) prompt of
           None \<Rightarrow> caught
         | Some text \<Rightarrow>
             (let convertedCode = parseCodeFromResponse text
              in case writeFileSync (disk r1) filePath (utf8_encode e convertedCode) of
                   None \<Rightarrow> caught
                 | Some d \<Rightarrow> r1\<lparr>disk := d, trace := trace r1 @ [WriteFileSync filePath]\<rparr>))"

fun convert_each :: "env \<Rightarrow> jsstring \<Rightarrow> fpath list \<Rightarrow> run \<Rightarrow> bool \<times> run" where
  \<comment> \<open>the loop over \<^verbatim>\<open>codeFiles\<close>; the flag tells that \<^verbatim>\<open>fs.readFileSync\<close> threw, which
      leaves the loop for the outer \<^verbatim>\<open>catch\<close>\<close>
  "convert_each e ts [] r = (False, r)"
| "convert_each e ts (filePath # rest) r =
     (case readFileSync (disk r) filePath of
        None \<Rightarrow> (True, r)
      | Some b \<Rightarrow>
          (let originalContent = utf8_decode e b
           in if trim originalContent = [] then convert_each e ts rest r
              else convert_each e ts rest (convert_file e ts filePath originalContent r)))"


definition per_file_steps :: "env \<Rightarrow> request \<Rightarrow> upload \<Rightarrow> jsstring \<Rightarrow> run \<Rightarrow> response \<times> run" where
  \<comment> \<open>the \<^verbatim>\<open>try\<close> block after the extraction\<close>
  "per_file_steps e req zipFile ts r1 =
     (case readdirSync (disk r1) (extractPath req) of
        None \<Rightarrow> (Json 500 msg_server_error, r1)
      | Some list \<Rightarrow>
          (let allFiles = getAllFilePaths (extractPath req) list;
               codeFiles = codeFiles_of e allFiles;
               (threw, r2) = convert_each e ts codeFiles r1
           in if threw then (Json 500 msg_server_error, r2)
              else
                (case readdirSync (disk r2) (extractPath req) of
                   None \<Rightarrow> (Json 500 msg_server_error, r2)
                 | Some folder \<Rightarrow>
                     (send_archive e zipFile (addLocalFolder_throws e folder)
                        (ZipFolder (attachment zipFile) folder), r2))))"

definition per_file_try :: "env \<Rightarrow> request \<Rightarrow> upload \<Rightarrow> jsstring \<Rightarrow> run \<Rightarrow> response \<times> run" where
  \<comment> \<open>the \<^verbatim>\<open>try\<close> block with its \<^verbatim>\<open>catch\<close>: every exception gives the generic 500\<close>
  "per_file_try e req zipFile ts r =
     (let (threw, r1) = extract_archive e req zipFile r
      in if threw then (Json 500 msg_server_error, r1)
         else per_file_steps e req zipFile ts r1)"

definition convert_per_file :: "env \<Rightarrow> request \<Rightarrow> run \<Rightarrow> response \<times> run" where
  \<comment> \<open>\<^verbatim>\<open>app.post('/convert', ...)\<close> of the per-file server\<close>
  "convert_per_file e req r =
     (if \<not> GEMINI_API_KEY e then (Json 500 msg_no_key, r)
      else case projectZip req of
        None \<Rightarrow> (Json 400 msg_no_projectZip, r)
      | Some zipFile \<Rightarrow>
          (case targetStack req of
             None \<Rightarrow> (Json 400 msg_no_targetStack, r)
           | Some ts \<Rightarrow>
               if ts = [] then (Json 400 msg_no_targetStack, r)
               else if mimetype zipFile \<noteq> lit ''application/zip''
                     \<and> mimetype zipFile \<noteq> lit ''application/x-zip-compressed''
               then (Json 400 (msg_invalid_type (mimetype zipFile)), r)
               else (let (res, r') = per_file_try e req zipFile ts r
                     in (res, cleanup req r'))))"


section \<open>An example project\<close>

definition demo_extname :: "fpath \<Rightarrow> jsstring" where
  \<comment> \<open>\<^verbatim>\<open>path.extname\<close>: the last segment from its last dot on; nothing for a name without a
      dot, for a name whose only dot is its first unit, and for \<^verbatim>\<open>..\<close>\<close>
  "demo_extname p =
     (if p = [] then []
      else (let base = last p;
                stem = length base - length (takeWhile (\<lambda>c. c \<noteq> 46) (rev base)) - 1
            in if 46 \<notin> set base \<or> stem = 0 \<or> base = [46, 46] then []
               else drop stem base))"

definition demo_set_throws :: "jsstring \<Rightarrow> bool" where
  \<comment> \<open>the check of a header value in Node's \<^verbatim>\<open>setHeader\<close>: a unit outside the tabulation,
      0x20 to 0x7e and 0x80 to 0xff is refused with \<^verbatim>\<open>ERR_INVALID_CHAR\<close>\<close>
  "demo_set_throws v =
     list_ex (\<lambda>c. \<not> (c = 9 \<or> (32 \<le> c \<and> c \<le> 126) \<or> (128 \<le> c \<and> c \<le> 255))) v"

definition demo_project :: entries where
  "demo_project =
     [(lit ''src'', Dir [(lit ''App.jsx'', File [60, 98, 47, 62]), (lit ''logo.png'', File [137, 80])]),
      (lit ''node_modules'', Dir [(lit ''dep.js'', File [49])])]"

definition demo_upload :: upload where
  "demo_upload = \<lparr>name = lit ''app.zip'', data = [80, 75, 3, 4], mimetype = lit ''application/zip''\<rparr>"

definition demo_request :: request where
  "demo_request = \<lparr>sourceCode = Some demo_upload, projectZip = Some demo_upload,
     targetStack = Some (lit ''Vue''), now = 42\<rparr>"

definition demo_env :: "bool \<Rightarrow> (nat \<Rightarrow> jsstring \<Rightarrow> jsstring option) \<Rightarrow> env" where
  \<comment> \<open>an environment whose archive library extracts \<open>demo_project\<close> and builds every
      archive, and whose codec is that of ASCII text\<close>
  "demo_env key model =
     \<lparr>GEMINI_API_KEY = key, extname = demo_extname, utf8_decode = map ucast,
      utf8_encode = map ucast,
      extractAllTo = (\<lambda>zipData dir d.
         (AList.update (hd dir) (Dir [(lit ''source'', Dir demo_project)]) d, False)),
      generateContent = model,
      addFile_throws = (\<lambda>added. False), addLocalFolder_throws = (\<lambda>folder. False),
      set_throws = demo_set_throws\<rparr>"

definition demo_disk :: entries where
  \<comment> \<open>\<^verbatim>\<open>tempDir\<close> once the example is extracted\<close>
  "demo_disk = [(requestTempDir demo_request, Dir [(lit ''source'', Dir demo_project)])]"

definition demo_run :: run where
  \<comment> \<open>before the request: an empty \<^verbatim>\<open>tempDir\<close>, no call made\<close>
  "demo_run = \<lparr>disk = [], calls = 0, trace = []\<rparr>"







section \<open>Well-formed responses\<close>

definition fence_wrap :: "jsstring \<Rightarrow> jsstring \<Rightarrow> jsstring \<Rightarrow> jsstring \<Rightarrow> jsstring" where
  \<comment> \<open>a captured content wrapped in a fence: the opening fence with its tag on a line of
      its own, the inner text, the closing fence on a line of its own\<close>
  "fence_wrap ws1 tag inner ws2 = ws1 @ FENCE @ tag @ NL # inner @ NL # FENCE @ ws2"

definition code_block :: "jsstring \<Rightarrow> jsstring \<Rightarrow> jsstring \<Rightarrow> jsstring \<Rightarrow> jsstring" where
  \<comment> \<open>a response that is one fenced block: the opening fence with its tag, a line feed, the
      inner text (its last line feed included) and the closing fence\<close>
  "code_block ws1 tag inner ws2 = ws1 @ FENCE @ tag @ NL # inner @ FENCE @ ws2"

definition block :: "jsstring \<Rightarrow> jsstring \<Rightarrow> jsstring" where
  \<comment> \<open>a delimited block: the start line, the content, the end line with the same path\<close>
  "block p c = START_FILE @ p @ NL # c @ NL # END_FILE @ p"

definition wf_path :: "jsstring \<Rightarrow> bool" where
  \<comment> \<open>a path as the format has it: a non-empty run without whitespace\<close>
  "wf_path p \<longleftrightarrow> p \<noteq> [] \<and> list_all non_space p"

definition wf_block :: "jsstring \<Rightarrow> jsstring \<Rightarrow> bool" where
  \<comment> \<open>the content of a block does not hold the end marker line of its own path\<close>
  "wf_block p c \<longleftrightarrow> wf_path p \<and> \<not> contains (NL # END_FILE @ p) c"

definition free_text :: "jsstring \<Rightarrow> bool" where
  \<comment> \<open>text around the blocks: no start marker occurs in it\<close>
  "free_text t \<longleftrightarrow> \<not> contains START_FILE t"

text \<open>
  The blocks in the words of the specification: a start marker line
  \<^verbatim>\<open>// START_FILE: <path>\<close> and, after it, an end marker line \<^verbatim>\<open>// END_FILE: <path>\<close> with the
  identical path, where a path is a non-empty run without whitespace.
\<close>

fun split_lines :: "jsstring \<Rightarrow> jsstring list" where
  \<comment> \<open>the lines of a text, which line feeds separate\<close>
  "split_lines [] = [[]]"
| "split_lines (c # s) =
     (if c = NL then [] # split_lines s
      else (case split_lines s of [] \<Rightarrow> [[c]] | l # ls \<Rightarrow> (c # l) # ls))"

definition spec_marker_path :: "jsstring \<Rightarrow> jsstring \<Rightarrow> jsstring option" where
  \<comment> \<open>the path of a marker line: the line is the marker and then the path\<close>
  "spec_marker_path marker l =
     (case lit_match marker l of
        None \<Rightarrow> None
      | Some p \<Rightarrow> if p \<noteq> [] \<and> list_all non_space p then Some p else None)"

fun spec_block_in :: "jsstring list \<Rightarrow> bool" where
  \<comment> \<open>some line is a start marker line and a line after it is the end marker line of the
      identical path\<close>
  "spec_block_in [] = False"
| "spec_block_in (l # ls) =
     ((case spec_marker_path START_FILE l of
         None \<Rightarrow> False
       | Some p \<Rightarrow> list_ex (\<lambda>l'. spec_marker_path END_FILE l' = Some p) ls)
      \<or> spec_block_in ls)"

definition spec_has_block :: "jsstring \<Rightarrow> bool" where
  "spec_has_block t \<longleftrightarrow> spec_block_in (split_lines t)"




section \<open>Properties of the whole-project parser\<close>

lemma contains_iff: "contains m s \<longleftrightarrow> (\<exists>u v. s = u @ m @ v)"
proof (induction s)
  case Nil
  then show ?case by auto
next
  case (Cons a s)
  show ?case
  proof
    assume "contains m (a # s)"
    then consider "prefix m (a # s)" | "contains m s" by auto
    then show "\<exists>u v. a # s = u @ m @ v"
    proof cases
      case 1
      then obtain v where "a # s = m @ v" by (auto simp: prefix_def)
      then have "a # s = [] @ m @ v" by simp
      then show ?thesis by blast
    next
      case 2
      with Cons obtain u v where "s = u @ m @ v" by blast
      then have "a # s = (a # u) @ m @ v" by simp
      then show ?thesis by blast
    qed
  next
    assume "\<exists>u v. a # s = u @ m @ v"
    then obtain u v where uv: "a # s = u @ m @ v" by blast
    show "contains m (a # s)"
    proof (cases u)
      case Nil
      with uv have "prefix m (a # s)" by (auto simp: prefix_def)
      then show ?thesis by simp
    next
      case (Cons b u')
      with uv have "s = u' @ m @ v" by simp
      with Cons.IH show ?thesis by auto
    qed
  qed
qed

lemma first_some_skip:
  "\<forall>x \<in> set xs. f x = None \<Longrightarrow> first_some f (xs @ ys) = first_some f ys"
  by (induction xs) auto

lemma first_some_hit:
  "\<forall>x \<in> set xs. f x = None \<Longrightarrow> f y = Some v \<Longrightarrow> first_some f (xs @ y # ys) = Some v"
  by (simp add: first_some_skip)

lemma first_some_none: "\<forall>x \<in> set xs. f x = None \<Longrightarrow> first_some f xs = None"
  by (induction xs) auto

lemma lazy_star_any_split:
  "j \<le> length s \<Longrightarrow> lazy_star_any s = [0 ..< j] @ j # [Suc j ..< Suc (length s)]"
proof -
  assume j: "j \<le> length s"
  then obtain d where d: "Suc (length s) = j + d" and "0 < d"
    by (metis add_Suc_right le_Suc_ex zero_less_Suc)
  have "[0 ..< j + d] = [0 ..< j] @ [j ..< j + d]"
    by (rule upt_add_eq_append) simp
  moreover have "[j ..< j + d] = j # [Suc j ..< j + d]"
    using \<open>0 < d\<close> by (simp add: upt_conv_Cons)
  ultimately show ?thesis
    by (simp add: lazy_star_any_def d)
qed

lemma START_FILE_no_border:
  "START_FILE = u @ us \<Longrightarrow> u \<noteq> [] \<Longrightarrow> us \<noteq> [] \<Longrightarrow> \<not> prefix us START_FILE"
  by (auto simp: START_FILE_def lit_def Cons_eq_append_conv)


lemma prefix_overlap:
  assumes "prefix m (u @ m @ r)" "\<not> prefix m u"
  shows "\<exists>us. m = u @ us \<and> us \<noteq> [] \<and> prefix us m"
proof -
  from assms(1) have "prefix m u \<or> (\<exists>us. m = u @ us \<and> prefix us (m @ r))"
    by (simp only: prefix_append)
  with assms(2) obtain us where us: "m = u @ us" "prefix us (m @ r)"
    by blast
  have "us \<noteq> []"
  proof
    assume "us = []"
    with us(1) have "m = u" by simp
    with assms(2) show False by simp
  qed
  moreover have "prefix us m"
  proof (rule prefix_length_prefix [OF us(2)])
    show "prefix m (m @ r)" by simp
    show "length us \<le> length m" using arg_cong [OF us(1), of length] by simp
  qed
  ultimately show ?thesis using us(1) by blast
qed

lemma not_contains_drop: "\<not> contains m s \<Longrightarrow> \<not> prefix m (drop j s)"
proof
  assume a: "\<not> contains m s" and "prefix m (drop j s)"
  then obtain v where "drop j s = m @ v" by (auto simp: prefix_def)
  then have "s = take j s @ m @ v" by (metis append_take_drop_id)
  then have "contains m s" unfolding contains_iff by blast
  with a show False by simp
qed

text \<open>A marker whose first unit occurs nowhere else in it cannot overlap itself.\<close>

lemma head_unique_no_early:
  assumes "x \<notin> set m'" "\<not> contains (x # m') c" "j < length c"
  shows "lit_match (x # m') (drop j (c @ (x # m') @ r)) = None"
proof (rule ccontr)
  assume "lit_match (x # m') (drop j (c @ (x # m') @ r)) \<noteq> None"
  then obtain t where "drop j (c @ (x # m') @ r) = (x # m') @ t"
    by (auto simp: lit_match_eq)
  then have p: "prefix (x # m') (drop j c @ (x # m') @ r)"
    using assms(3) by (simp add: prefix_def)
  have np: "\<not> prefix (x # m') (drop j c)"
    using assms(2) by (rule not_contains_drop)
  from prefix_overlap [OF p np] obtain us where
    us: "x # m' = drop j c @ us" "us \<noteq> []" "prefix us (x # m')" by blast
  have "drop j c \<noteq> []" using assms(3) by simp
  then obtain y d where yd: "drop j c = y # d" by (cases "drop j c") auto
  with us(1) have m': "m' = d @ us" by simp
  obtain z us' where z: "us = z # us'" using us(2) by (cases us) auto
  with us(3) have "z = x" by simp
  with m' z have "x \<in> set m'" by simp
  with assms(1) show False by simp
qed

lemma NL_is_space: "is_space NL"
  by (simp add: is_space_def NL_def)

lemma NL_notin_END_FILE: "NL \<notin> set END_FILE"
  by (simp add: END_FILE_def lit_def NL_def)

lemma greedy_plus_Cons: "0 < length (takeWhile C s) \<Longrightarrow>
  greedy_plus C s = length (takeWhile C s) # rev [1 ..< length (takeWhile C s)]"
  by (cases "takeWhile C s") (simp_all add: greedy_plus_def)

lemma lit_match_append [simp]: "lit_match m (m @ r) = Some r"
  by (simp add: lit_match_eq)

lemma lazy_first:
  assumes "j \<le> length s" "\<forall>i<j. f i = None" "f j = Some v"
  shows "first_some f (lazy_star_any s) = Some v"
proof -
  have "\<forall>x \<in> set [0 ..< j]. f x = None" using assms(2) by simp
  then have "first_some f ([0 ..< j] @ j # [Suc j ..< Suc (length s)]) = Some v"
    using assms(3) by (rule first_some_hit)
  then show ?thesis using lazy_star_any_split [OF assms(1)] by simp
qed

lemma fileRegex_at_block:
  assumes "wf_path p" "\<not> contains (NL # END_FILE @ p) c"
  shows "fileRegex_at (block p c @ rest) = Some (p, c, rest)"
proof -
  define r1 where "r1 = p @ NL # c @ NL # END_FILE @ p @ rest"
  define r2 where "r2 = c @ (NL # END_FILE @ p) @ rest"
  define f where "f = (\<lambda>j.
         case lit_match (NL # END_FILE @ take (length p) r1) (drop j r2) of
           None \<Rightarrow> None | Some rest' \<Rightarrow> Some (take (length p) r1, take j r2, rest'))"
  have lm: "lit_match START_FILE (block p c @ rest) = Some r1"
    by (simp add: lit_match_eq block_def r1_def)
  have tw: "takeWhile non_space r1 = p"
    using assms(1) NL_is_space
    by (simp add: wf_path_def list_all_iff non_space_def r1_def)
  have len: "0 < length p" using assms(1) by (simp add: wf_path_def)
  have gp: "greedy_plus non_space r1 = length p # rev [1 ..< length p]"
    using greedy_plus_Cons [of non_space r1] len by (simp add: tw)
  have nl: "lit_match [NL] (drop (length p) r1) = Some r2"
    by (simp add: lit_match_eq r1_def r2_def)
  have tk: "take (length p) r1 = p" by (simp add: r1_def)
  have uniq: "NL \<notin> set (END_FILE @ p)"
    using assms(1) NL_notin_END_FILE NL_is_space
    by (auto simp: wf_path_def list_all_iff non_space_def)
  have early: "\<forall>i<length c. f i = None"
    using head_unique_no_early [OF uniq assms(2), of _ rest]
    by (simp add: f_def tk r2_def)
  have "lit_match (NL # END_FILE @ p) (drop (length c) r2) = Some rest"
    by (simp add: lit_match_eq r2_def)
  then have hit: "f (length c) = Some (p, c, rest)"
    by (simp add: f_def tk r2_def)
  have "length c \<le> length r2" by (simp add: r2_def)
  then have inner: "first_some f (lazy_star_any r2) = Some (p, c, rest)"
    using early hit by (rule lazy_first)
  show ?thesis
    unfolding fileRegex_at_def lm option.case gp first_some.simps nl
    using inner by (simp add: f_def)
qed


lemma lit_match_None: "lit_match m s = None \<longleftrightarrow> \<not> prefix m s"
  by (induction m s rule: lit_match.induct) auto

lemma fileRegex_at_no_start:
  assumes "\<not> prefix START_FILE s"
  shows "fileRegex_at s = None"
proof -
  have "lit_match START_FILE s = None" using assms by (simp add: lit_match_None)
  then show ?thesis by (simp add: fileRegex_at_def)
qed


lemma fileRegex_exec_skip:
  "\<forall>j<length sep. fileRegex_at (drop j sep @ X) = None
   \<Longrightarrow> fileRegex_exec (sep @ X) = fileRegex_exec X"
proof (induction sep)
  case Nil
  then show ?case by simp
next
  case (Cons a sep)
  have "fileRegex_at ((a # sep) @ X) = None"
    using Cons.prems [rule_format, of 0] by simp
  moreover have "\<forall>j<length sep. fileRegex_at (drop j sep @ X) = None"
  proof (intro allI impI)
    fix j assume "j < length sep"
    then show "fileRegex_at (drop j sep @ X) = None"
      using Cons.prems [rule_format, of "Suc j"] by simp
  qed
  ultimately show ?case using Cons.IH by simp
qed

lemma free_text_no_start:
  assumes "\<not> contains START_FILE sep" "prefix START_FILE X \<or> X = []" "j < length sep"
  shows "\<not> prefix START_FILE (drop j sep @ X)"
proof
  assume p: "prefix START_FILE (drop j sep @ X)"
  have np: "\<not> prefix START_FILE (drop j sep)"
    using assms(1) by (rule not_contains_drop)
  have ne: "drop j sep \<noteq> []" using assms(3) by simp
  from assms(2) show False
  proof
    assume "X = []"
    with p np show False by simp
  next
    assume "prefix START_FILE X"
    then obtain r where "X = START_FILE @ r" by (auto simp: prefix_def)
    with p have "prefix START_FILE (drop j sep @ START_FILE @ r)" by simp
    from prefix_overlap [OF this np] obtain us where
      "START_FILE = drop j sep @ us" "us \<noteq> []" "prefix us START_FILE" by blast
    with ne START_FILE_no_border show False by blast
  qed
qed

lemma fileRegex_exec_free_text:
  assumes "\<not> contains START_FILE sep" "prefix START_FILE X \<or> X = []"
  shows "fileRegex_exec (sep @ X) = fileRegex_exec X"
  using free_text_no_start [OF assms]
  by (intro fileRegex_exec_skip allI impI fileRegex_at_no_start)

lemma prefix_START_block: "prefix START_FILE (block p c @ r)"
  by (simp add: block_def)


lemma fileRegex_at_sound:
  assumes "fileRegex_at s = Some (p, c, rest)"
  shows "wf_path p \<and> s = block p c @ rest"
proof -
  from assms obtain r1 where r1: "lit_match START_FILE s = Some r1"
    by (auto simp: fileRegex_at_def split: option.splits)
  with assms obtain k r2 j where
    k: "k \<in> set (greedy_plus non_space r1)" and
    nl: "lit_match [NL] (drop k r1) = Some r2" and
    e: "lit_match (NL # END_FILE @ take k r1) (drop j r2) = Some rest" and
    p: "p = take k r1" and c: "c = take j r2"
    by (auto simp: fileRegex_at_def split: option.splits dest!: first_some_SomeD)
  from k have k1: "1 \<le> k" and k2: "k \<le> length (takeWhile non_space r1)"
    by (auto simp: greedy_plus_def)
  have "take k r1 = take k (takeWhile non_space r1)"
    using k2 by (metis append_take_drop_id takeWhile_dropWhile_id take_append
        diff_is_0_eq take_0 append_Nil2)
  then have "set p \<subseteq> set (takeWhile non_space r1)"
    using p by (metis set_take_subset)
  then have ns: "list_all non_space p"
    by (auto simp: list_all_iff dest: set_takeWhileD)
  have "k \<le> length r1"
    using k2 length_takeWhile_le [of non_space r1] by simp
  with k1 p have ne: "p \<noteq> []" by auto
  have "r1 = p @ drop k r1" by (simp add: p)
  moreover have "drop k r1 = NL # r2" using nl by (simp add: lit_match_eq)
  moreover have "r2 = c @ drop j r2" by (simp add: c)
  moreover have "drop j r2 = NL # END_FILE @ p @ rest" using e p by (simp add: lit_match_eq)
  moreover have "s = START_FILE @ r1" using r1 by (simp add: lit_match_eq)
  ultimately have "s = block p c @ rest" by (simp add: block_def)
  with ns ne show ?thesis by (simp add: wf_path_def)
qed

lemma first_some_append:
  "first_some f (xs @ ys) = (case first_some f xs of Some y \<Rightarrow> Some y | None \<Rightarrow> first_some f ys)"
  by (induction xs) (auto split: option.splits)

lemma first_some_upt_first:
  "first_some f [0 ..< n] = Some y \<Longrightarrow> \<exists>j<n. f j = Some y \<and> (\<forall>i<j. f i = None)"
proof (induction n)
  case 0
  then show ?case by simp
next
  case (Suc n)
  show ?case
  proof (cases "first_some f [0 ..< n]")
    case None
    with Suc.prems have "f n = Some y" by (simp add: first_some_append split: option.splits)
    moreover have "\<forall>i<n. f i = None"
    proof (intro allI impI)
      fix i assume "i < n"
      show "f i = None"
      proof (cases "f i")
        case (Some v)
        then have "first_some f ([0 ..< i] @ i # [Suc i ..< n]) \<noteq> None"
          by (simp add: first_some_append split: option.splits)
        moreover have "[0 ..< n] = [0 ..< i] @ i # [Suc i ..< n]"
          using \<open>i < n\<close> by (metis upt_conv_Cons upt_add_eq_append le_add_diff_inverse
              less_imp_le zero_le)
        ultimately show ?thesis using None by simp
      qed simp
    qed
    ultimately show ?thesis by blast
  next
    case (Some v)
    with Suc.prems have "v = y" by (simp add: first_some_append)
    with Some Suc.IH obtain j where "j < n" "f j = Some y" "\<forall>i<j. f i = None" by blast
    then show ?thesis using less_Suc_eq by blast
  qed
qed

text \<open>The content is the shortest one: the end marker line of the path does not occur in it.\<close>

lemma fileRegex_at_lazy:
  assumes "fileRegex_at s = Some (p, c, rest)"
  shows "\<not> contains (NL # END_FILE @ p) c"
proof
  assume "contains (NL # END_FILE @ p) c"
  then obtain u v where uv: "c = u @ (NL # END_FILE @ p) @ v" unfolding contains_iff by blast
  from assms obtain r1 where r1: "lit_match START_FILE s = Some r1"
    by (auto simp: fileRegex_at_def split: option.splits)
  with assms obtain k r2 where
    nl: "lit_match [NL] (drop k r1) = Some r2" and
    inner: "first_some (\<lambda>j.
        case lit_match (NL # END_FILE @ take k r1) (drop j r2) of
          None \<Rightarrow> None
        | Some rest \<Rightarrow> Some (take k r1, take j r2, rest))
        (lazy_star_any r2) = Some (p, c, rest)"
    by (auto simp: fileRegex_at_def split: option.splits dest!: first_some_SomeD)
  from first_some_upt_first [OF inner [unfolded lazy_star_any_def]] obtain j where
    hit: "(case lit_match (NL # END_FILE @ take k r1) (drop j r2) of
          None \<Rightarrow> None
        | Some rest \<Rightarrow> Some (take k r1, take j r2, rest)) = Some (p, c, rest)" and
    early: "\<forall>i<j. (case lit_match (NL # END_FILE @ take k r1) (drop i r2) of
          None \<Rightarrow> None
        | Some rest \<Rightarrow> Some (take k r1, take i r2, rest)) = None"
    by blast
  from hit have p: "p = take k r1" and c: "c = take j r2"
    by (auto split: option.splits)
  have "length c \<le> j" by (simp add: c)
  then have lt: "length u < j" by (simp add: uv)
  have "r2 = c @ drop j r2" by (simp add: c)
  then have "drop (length u) r2 = (NL # END_FILE @ p) @ v @ drop j r2"
    by (metis uv append_assoc append_eq_conv_conj)
  then have m: "lit_match (NL # END_FILE @ take k r1) (drop (length u) r2) = Some (v @ drop j r2)"
    by (simp only: lit_match_eq p)
  from early lt have "(case lit_match (NL # END_FILE @ take k r1) (drop (length u) r2) of
          None \<Rightarrow> None
        | Some rest \<Rightarrow> Some (take k r1, take (length u) r2, rest)) = None"
    by blast
  with m show False by simp
qed

lemma fileRegex_exec_sound:
  "fileRegex_exec s = Some (p, c, rest) \<Longrightarrow> wf_block p c \<and> (\<exists>pre. s = pre @ block p c @ rest)"
proof (induction s)
  case Nil
  then show ?case
    using fileRegex_at_sound [of "[]" p c rest] fileRegex_at_lazy [of "[]" p c rest]
    by (auto simp: wf_block_def)
next
  case (Cons a s)
  show ?case
  proof (cases "fileRegex_at (a # s)")
    case None
    with Cons obtain pre where "wf_block p c" "s = pre @ block p c @ rest" by auto
    then have "a # s = (a # pre) @ block p c @ rest" by simp
    with \<open>wf_block p c\<close> show ?thesis by blast
  next
    case (Some m)
    with Cons.prems have at: "fileRegex_at (a # s) = Some (p, c, rest)" by simp
    from fileRegex_at_sound [OF at] fileRegex_at_lazy [OF at]
    have "wf_block p c" "a # s = [] @ block p c @ rest" by (simp_all add: wf_block_def)
    then show ?thesis by blast
  qed
qed

lemma parse_sound:
  "e \<in> set (parseAIResponse_from s) \<Longrightarrow>
   \<exists>pre c rest. wf_block (path e) c \<and> s = pre @ block (path e) c @ rest
      \<and> e = convert_block (path e) c"
proof (induction s rule: parseAIResponse_from.induct)
  case (1 s)
  show ?case
  proof (cases "fileRegex_exec s")
    case None
    with 1(2) show ?thesis by (simp add: parseAIResponse_from.simps)
  next
    case (Some m)
    obtain p c rest where m: "m = (p, c, rest)" by (cases m)
    from fileRegex_exec_sound Some m obtain pre where
      s: "wf_block p c" "s = pre @ block p c @ rest" by blast
    from 1(2) Some m have "e = convert_block p c \<or> e \<in> set (parseAIResponse_from rest)"
      by (subst (asm) parseAIResponse_from.simps) auto
    then show ?thesis
    proof
      assume e: "e = convert_block p c"
      then have "path e = p" by (simp add: convert_block_def Let_def)
      with e s have "wf_block (path e) c" "s = pre @ block (path e) c @ rest"
        "e = convert_block (path e) c" by simp_all
      then show ?thesis by blast
    next
      assume 2: "e \<in> set (parseAIResponse_from rest)"
      from "1.IH" [OF Some m [symmetric] refl 2]
      obtain pre' c' rest' where
        "wf_block (path e) c'" "rest = pre' @ block (path e) c' @ rest'"
        "e = convert_block (path e) c'"
        by blast
      moreover from this s have "s = (pre @ block p c @ pre') @ block (path e) c' @ rest'" by simp
      ultimately show ?thesis by blast
    qed
  qed
qed

lemma START_FILE_after_itself:
  assumes "\<not> contains START_FILE b" "0 < j"
  shows "\<not> prefix START_FILE (drop j (START_FILE @ b))"
proof (cases "j < length START_FILE")
  case False
  then have "drop j (START_FILE @ b) = drop (j - length START_FILE) b" by simp
  with assms(1) show ?thesis by (simp add: not_contains_drop)
next
  case True
  let ?u = "drop j START_FILE"
  show ?thesis
  proof
    assume "prefix START_FILE (drop j (START_FILE @ b))"
    with True have "prefix START_FILE (?u @ b)" by simp
    then have "prefix START_FILE ?u \<or> (\<exists>us. START_FILE = ?u @ us \<and> prefix us b)"
      by (simp only: prefix_append)
    moreover have "\<not> prefix START_FILE ?u"
      using assms(2) True by (auto dest!: prefix_length_le)
    ultimately obtain us where us: "START_FILE = ?u @ us" by blast
    then have "prefix ?u START_FILE" by (metis prefixI)
    moreover have "START_FILE = take j START_FILE @ ?u" by simp
    moreover have "take j START_FILE \<noteq> []" "?u \<noteq> []" using assms(2) True by auto
    ultimately show False using START_FILE_no_border by blast
  qed
qed

lemma fileRegex_at_space_path:
  assumes "\<exists>x \<in> set p. is_space x" "NL \<notin> set p"
  shows "fileRegex_at (block p c @ rest) = None"
proof -
  define r1 where "r1 = p @ NL # c @ NL # END_FILE @ p @ rest"
  have lm: "lit_match START_FILE (block p c @ rest) = Some r1"
    by (simp add: lit_match_eq block_def r1_def)
  have tw: "takeWhile non_space r1 = takeWhile non_space p"
    using assms(1) by (auto simp: r1_def non_space_def intro: takeWhile_append1)
  have "takeWhile non_space p \<noteq> p"
    using assms(1) by (auto simp: takeWhile_eq_all_conv non_space_def)
  then have "length (takeWhile non_space p) \<noteq> length p"
    by (metis append_eq_append_conv append_Nil2 takeWhile_dropWhile_id)
  with length_takeWhile_le [of non_space p]
  have short: "length (takeWhile non_space p) < length p" by simp
  have "\<forall>k \<in> set (greedy_plus non_space r1).
      (case lit_match [NL] (drop k r1) of
         None \<Rightarrow> None
       | Some r2 \<Rightarrow>
           first_some (\<lambda>j.
             case lit_match (NL # END_FILE @ take k r1) (drop j r2) of
               None \<Rightarrow> None
             | Some rest \<Rightarrow> Some (take k r1, take j r2, rest))
             (lazy_star_any r2)) = None"
  proof
    fix k assume "k \<in> set (greedy_plus non_space r1)"
    with short have k: "k < length p" by (auto simp: greedy_plus_def tw)
    then have "drop k r1 = p ! k # drop (Suc k) r1"
      by (simp add: r1_def Cons_nth_drop_Suc nth_append)
    moreover have "p ! k \<noteq> NL" using k assms(2) by (metis nth_mem)
    ultimately have "lit_match [NL] (drop k r1) = None" by simp
    then show "(case lit_match [NL] (drop k r1) of
         None \<Rightarrow> None
       | Some r2 \<Rightarrow>
           first_some (\<lambda>j.
             case lit_match (NL # END_FILE @ take k r1) (drop j r2) of
               None \<Rightarrow> None
             | Some rest \<Rightarrow> Some (take k r1, take j r2, rest))
             (lazy_star_any r2)) = None" by simp
  qed
  then show ?thesis
    unfolding fileRegex_at_def lm option.case by (rule first_some_none)
qed

lemma parse_space_path:
  assumes "\<exists>x \<in> set p. is_space x" "NL \<notin> set p" "free_text pre"
    "free_text (p @ NL # c @ NL # END_FILE @ p @ post)"
  shows "parseAIResponse_from (pre @ block p c @ post) = []"
proof -
  let ?b = "p @ NL # c @ NL # END_FILE @ p @ post"
  have X: "block p c @ post = START_FILE @ ?b" by (simp add: block_def)
  have at_nil: "fileRegex_at [] = None"
    by (rule fileRegex_at_no_start) (simp add: START_FILE_def lit_def)
  have "fileRegex_exec (pre @ block p c @ post) = fileRegex_exec (block p c @ post)"
    using assms(3) prefix_START_block
    by (intro fileRegex_exec_free_text) (simp_all add: free_text_def)
  also have "\<dots> = fileRegex_exec ((block p c @ post) @ [])" by simp
  also have "\<dots> = fileRegex_exec []"
  proof (rule fileRegex_exec_skip, intro allI impI)
    fix j assume "j < length (block p c @ post)"
    show "fileRegex_at (drop j (block p c @ post) @ []) = None"
    proof (cases "j = 0")
      case True
      then show ?thesis using fileRegex_at_space_path [OF assms(1,2)] by simp
    next
      case False
      then have "\<not> prefix START_FILE (drop j (START_FILE @ ?b))"
        using assms(4) by (intro START_FILE_after_itself) (simp_all add: free_text_def)
      then show ?thesis by (simp add: X fileRegex_at_no_start)
    qed
  qed
  finally have "fileRegex_exec (pre @ block p c @ post) = None" using at_nil by simp
  then show ?thesis by (simp add: parseAIResponse_from.simps)
qed


text \<open>Conversely, a block that occurs in the response gives an entry.\<close>

lemma fileRegex_exec_complete: "fileRegex_at s \<noteq> None \<Longrightarrow> fileRegex_exec (pre @ s) \<noteq> None"
proof (induction pre)
  case Nil
  then show ?case by (cases s) auto
next
  case (Cons a pre)
  then show ?case by (auto split: option.splits)
qed

lemma parse_complete:
  assumes "wf_block p c"
  shows "parseAIResponse (pre @ block p c @ rest) \<noteq> []"
proof -
  from assms have "fileRegex_at (block p c @ rest) = Some (p, c, rest)"
    by (intro fileRegex_at_block) (simp_all add: wf_block_def)
  then have "fileRegex_exec (pre @ block p c @ rest) \<noteq> None"
    by (intro fileRegex_exec_complete) simp
  then show ?thesis
    by (auto simp: parseAIResponse_def parseAIResponse_from.simps [of "pre @ block p c @ rest"])
qed


section \<open>Properties of the fence patterns\<close>

lemma FENCE_eq: "FENCE = [96, 96, 96]"
  by (simp add: FENCE_def lit_def)

lemma tick_not_space: "\<not> is_space 96"
  by (simp add: is_space_def)

lemma NL_not_lower: "\<not> is_lower NL"
  by (simp add: is_lower_def NL_def)

lemma NL_not_word: "\<not> is_word NL"
  by (simp add: is_word_def NL_def)

lemma greedy_star_Cons:
  "greedy_star C s = length (takeWhile C s) # rev [0 ..< length (takeWhile C s)]"
  by (simp add: greedy_star_def)

lemma takeWhile_all_then:
  "list_all C a \<Longrightarrow> \<not> C x \<Longrightarrow> takeWhile C (a @ x # b) = a"
  by (simp add: list_all_iff)

lemma takeWhile_all: "list_all C a \<Longrightarrow> takeWhile C a = a"
  by (simp add: list_all_iff)

text \<open>After the closing fence only whitespace may follow, up to the end of the input.\<close>

lemma fence_tail_Some: "fence_tail g r3 = Some y \<Longrightarrow> list_all is_space r3 \<and> y = g"
proof -
  assume "fence_tail g r3 = Some y"
  then obtain w where w: "w \<in> set (greedy_star is_space r3)" "drop w r3 = []" "y = g"
    by (auto simp: fence_tail_def dest!: first_some_SomeD split: if_splits)
  then have "w \<le> length (takeWhile is_space r3)" "length r3 \<le> w"
    by (auto simp: greedy_star_def)
  with length_takeWhile_le [of is_space r3]
  have "length (takeWhile is_space r3) = length r3" by simp
  then have "takeWhile is_space r3 = r3"
    by (metis append_eq_append_conv append_Nil2 takeWhile_dropWhile_id)
  then have "list_all is_space r3"
    by (simp add: takeWhile_eq_all_conv list_all_iff)
  with w(3) show ?thesis by simp
qed

lemma fence_tail_all: "list_all is_space r3 \<Longrightarrow> fence_tail g r3 = Some g"
  by (simp add: fence_tail_def greedy_star_Cons takeWhile_all)

lemma markdownFence_match_wrap:
  assumes "list_all is_space ws1" "list_all is_lower tag" "list_all is_space ws2"
  shows "markdownFence_match (fence_wrap ws1 tag inner ws2) = Some inner"
proof -
  define s where "s = fence_wrap ws1 tag inner ws2"
  define r1 where "r1 = tag @ NL # inner @ NL # FENCE @ ws2"
  define r2 where "r2 = inner @ NL # FENCE @ ws2"
  define f where "f = (\<lambda>j. case lit_match (NL # FENCE) (drop j r2) of
                     None \<Rightarrow> None
                   | Some r3 \<Rightarrow> fence_tail (take j r2) r3)"
  have s: "s = ws1 @ 96 # 96 # 96 # r1"
    by (simp add: s_def fence_wrap_def r1_def FENCE_eq)
  have tw1: "takeWhile is_space s = ws1"
    unfolding s using assms(1) tick_not_space by (rule takeWhile_all_then)
  have l1: "lit_match FENCE (drop (length ws1) s) = Some r1"
    by (simp add: s FENCE_eq)
  have tw2: "takeWhile is_lower r1 = tag"
    unfolding r1_def using assms(2) NL_not_lower by (rule takeWhile_all_then)
  have l2: "lit_match [NL] (drop (length tag) r1) = Some r2"
    by (simp add: r1_def r2_def)
  have early: "\<forall>i<length inner. f i = None"
  proof (intro allI impI)
    fix i assume i: "i < length inner"
    show "f i = None"
    proof (cases "lit_match (NL # FENCE) (drop i r2)")
      case None
      then show ?thesis by (simp add: f_def)
    next
      case (Some r3)
      then have "drop i r2 = (NL # FENCE) @ r3" by (simp only: lit_match_eq)
      then have "length (drop i r2) = length ((NL # FENCE) @ r3)" by simp
      then have "length r2 - i = 4 + length r3"
        by (simp add: FENCE_eq)
      moreover have len: "length r2 = length inner + 4 + length ws2"
        by (simp add: r2_def FENCE_eq)
      ultimately have lr3: "length r3 = length inner - i + length ws2" using i by simp
      have "r3 = drop 4 (drop i r2)"
        using \<open>drop i r2 = (NL # FENCE) @ r3\<close> by (simp add: FENCE_eq)
      then have r3: "r3 = drop (i + 4) r2" by (simp add: add.commute)
      have "\<not> list_all is_space r3"
      proof
        assume all: "list_all is_space r3"
        let ?n = "length inner - Suc i"
        have n: "?n < length r3" using lr3 i by simp
        have "r3 ! ?n = r2 ! (i + 4 + ?n)"
          unfolding r3 using i len by (subst nth_drop) simp_all
        also have "i + 4 + ?n = length inner + 3" using i by simp
        also have "r2 ! (length inner + 3) = 96"
          by (simp add: r2_def nth_append FENCE_eq)
        finally have "r3 ! ?n = 96" .
        moreover have "is_space (r3 ! ?n)"
          using all n by (simp add: list_all_length)
        ultimately show False using tick_not_space by simp
      qed
      then have "fence_tail (take i r2) r3 = None"
        using fence_tail_Some [of "take i r2" r3] by (cases "fence_tail (take i r2) r3") auto
      with Some show ?thesis by (simp add: f_def)
    qed
  qed
  have "lit_match (NL # FENCE) (drop (length inner) r2) = Some ws2"
    by (simp add: r2_def lit_match_eq)
  moreover have "fence_tail inner ws2 = Some inner"
    using assms(3) by (rule fence_tail_all)
  ultimately have hit: "f (length inner) = Some inner"
    by (simp add: f_def r2_def)
  have "length inner \<le> length r2" by (simp add: r2_def)
  then have inner: "first_some f (lazy_star_any r2) = Some inner"
    using early hit by (rule lazy_first)
  have "markdownFence_match s = Some inner"
    unfolding markdownFence_match_def greedy_star_Cons tw1 tw2 first_some.simps l1 l2 option.case
    using inner by (simp add: f_def tw2 l2)
  then show ?thesis by (simp add: s_def)
qed

lemma greedy_star_bound: "k \<in> set (greedy_star C s) \<Longrightarrow> k \<le> length (takeWhile C s)"
  by (auto simp: greedy_star_def)

lemma take_le_takeWhile:
  "k \<le> length (takeWhile C s) \<Longrightarrow> list_all C (take k s)"
proof -
  assume k: "k \<le> length (takeWhile C s)"
  have "take k s = take k (takeWhile C s @ dropWhile C s)" by simp
  also have "\<dots> = take k (takeWhile C s)" using k by (simp only: take_append) simp
  finally have "set (take k s) \<subseteq> set (takeWhile C s)" by (metis set_take_subset)
  then show ?thesis by (auto simp: list_all_iff dest: set_takeWhileD)
qed

lemma markdownFence_match_sound:
  assumes "markdownFence_match s = Some inner"
  shows "\<exists>ws1 tag ws2. list_all is_space ws1 \<and> list_all is_lower tag \<and> list_all is_space ws2
           \<and> s = fence_wrap ws1 tag inner ws2"
proof -
  from assms obtain k r1 where
    k: "k \<in> set (greedy_star is_space s)" and l1: "lit_match FENCE (drop k s) = Some r1" and
    rest1: "first_some (\<lambda>m.
             case lit_match [NL] (drop m r1) of
               None \<Rightarrow> None
             | Some r2 \<Rightarrow>
                 first_some (\<lambda>j.
                   case lit_match (NL # FENCE) (drop j r2) of
                     None \<Rightarrow> None
                   | Some r3 \<Rightarrow> fence_tail (take j r2) r3)
                   (lazy_star_any r2))
             (greedy_star is_lower r1) = Some inner"
    unfolding markdownFence_match_def
    by (auto dest!: first_some_SomeD split: option.splits)
  from rest1 obtain m r2 where
    m: "m \<in> set (greedy_star is_lower r1)" and l2: "lit_match [NL] (drop m r1) = Some r2" and
    rest2: "first_some (\<lambda>j.
                   case lit_match (NL # FENCE) (drop j r2) of
                     None \<Rightarrow> None
                   | Some r3 \<Rightarrow> fence_tail (take j r2) r3)
                   (lazy_star_any r2) = Some inner"
    by (auto dest!: first_some_SomeD split: option.splits)
  from rest2 obtain j r3 where
    l3: "lit_match (NL # FENCE) (drop j r2) = Some r3" and
    t: "fence_tail (take j r2) r3 = Some inner"
    by (auto dest!: first_some_SomeD split: option.splits)
  from fence_tail_Some [OF t] have ws2: "list_all is_space r3" and inner: "inner = take j r2"
    by simp_all
  have ws1: "list_all is_space (take k s)"
    using k by (intro take_le_takeWhile greedy_star_bound)
  have tag: "list_all is_lower (take m r1)"
    using m by (intro take_le_takeWhile greedy_star_bound)
  have "s = take k s @ drop k s" by simp
  moreover have "drop k s = FENCE @ r1" using l1 by (simp only: lit_match_eq)
  moreover have "r1 = take m r1 @ drop m r1" by simp
  moreover have "drop m r1 = NL # r2" using l2 by (simp add: lit_match_eq)
  moreover have "r2 = take j r2 @ drop j r2" by simp
  moreover have "drop j r2 = NL # FENCE @ r3" using l3 by (simp add: lit_match_eq)
  ultimately have "s = take k s @ FENCE @ take m r1 @ NL # inner @ NL # FENCE @ r3"
    using inner by (metis append_assoc append_Cons)
  then have "s = fence_wrap (take k s) (take m r1) inner r3"
    by (simp add: fence_wrap_def)
  with ws1 tag ws2 show ?thesis by blast
qed


lemma trim_decomp: "\<exists>a b. s = a @ trim s @ b"
proof -
  let ?d = "dropWhile is_space s"
  have "s = takeWhile is_space s @ ?d" by simp
  moreover have "rev ?d = takeWhile is_space (rev ?d) @ dropWhile is_space (rev ?d)" by simp
  then have "?d = rev (dropWhile is_space (rev ?d)) @ rev (takeWhile is_space (rev ?d))"
    by (metis rev_append rev_rev_ident)
  ultimately have "s = takeWhile is_space s @ trim s @ rev (takeWhile is_space (rev ?d))"
    by (simp add: trim_def)
  then show ?thesis by blast
qed

lemma contains_trim: "contains m (trim s) \<Longrightarrow> contains m s"
proof -
  assume "contains m (trim s)"
  then obtain u v where "trim s = u @ m @ v" unfolding contains_iff by blast
  moreover obtain a b where "s = a @ trim s @ b" using trim_decomp by blast
  ultimately have "s = (a @ u) @ m @ (v @ b)" by simp
  then show ?thesis unfolding contains_iff by blast
qed

lemma trim_space_Cons: "is_space x \<Longrightarrow> trim (x # s) = trim s"
  by (simp add: trim_def)

lemma greedy_plus_any_split:
  assumes "1 \<le> j" "j \<le> length s"
  shows "greedy_plus_any s = rev [Suc j ..< Suc (length s)] @ j # rev [1 ..< j]"
proof -
  obtain d where d: "Suc (length s) = Suc j + d" using assms(2) by (metis add_Suc le_Suc_ex)
  have "[1 ..< Suc j + d] = [1 ..< Suc j] @ [Suc j ..< Suc j + d]"
    using assms(1) by (intro upt_add_eq_append) simp
  moreover have "[1 ..< Suc j] = [1 ..< j] @ [j]" using assms(1) by simp
  ultimately show ?thesis by (simp add: greedy_plus_any_def d)
qed

lemma greedy_last:
  assumes "1 \<le> j" "j \<le> length s" "\<forall>i. j < i \<and> i \<le> length s \<longrightarrow> f i = None" "f j = Some v"
  shows "first_some f (greedy_plus_any s) = Some v"
proof -
  have "\<forall>x \<in> set (rev [Suc j ..< Suc (length s)]). f x = None"
  proof
    fix x assume "x \<in> set (rev [Suc j ..< Suc (length s)])"
    then have "j < x \<and> x \<le> length s" by auto
    with assms(3) show "f x = None" by blast
  qed
  then have "first_some f (rev [Suc j ..< Suc (length s)] @ j # rev [1 ..< j]) = Some v"
    using assms(4) by (rule first_some_hit)
  then show ?thesis using greedy_plus_any_split [OF assms(1,2)] by simp
qed

lemma no_fence_in_tail:
  assumes "list_all is_space ws" "0 < d"
  shows "\<not> prefix FENCE (drop d (FENCE @ ws))"
proof -
  have sp: "\<not> prefix FENCE t" if "list_all is_space t" for t
    using that tick_not_space by (cases t) (auto simp: FENCE_eq)
  consider "d = 1" | "d = 2" | "3 \<le> d" using assms(2) by linarith
  then show ?thesis
  proof cases
    case 1
    then show ?thesis using assms(1) tick_not_space by (cases ws) (auto simp: FENCE_eq)
  next
    case 2
    then show ?thesis using assms(1) tick_not_space
      by (cases ws) (auto simp: FENCE_eq numeral_2_eq_2)
  next
    case 3
    moreover have "length FENCE = 3" by (simp add: FENCE_eq)
    ultimately have "drop d (FENCE @ ws) = drop (d - 3) ws" by simp
    moreover have "list_all is_space (drop (d - 3) ws)"
      using assms(1) by (auto simp: list_all_iff dest: in_set_dropD)
    ultimately show ?thesis using sp by simp
  qed
qed

lemma last_fence_append:
  assumes "g \<noteq> []" "list_all is_space ws"
  shows "first_some (\<lambda>j. case lit_match FENCE (drop j (g @ FENCE @ ws)) of
                 None \<Rightarrow> None | Some _ \<Rightarrow> Some (take j (g @ FENCE @ ws)))
           (greedy_plus_any (g @ FENCE @ ws)) = Some g"
proof (rule greedy_last [where j = "length g"])
  show "1 \<le> length g" using assms(1) by (cases g) auto
  show "length g \<le> length (g @ FENCE @ ws)" by simp
  show "\<forall>i. length g < i \<and> i \<le> length (g @ FENCE @ ws) \<longrightarrow>
      (case lit_match FENCE (drop i (g @ FENCE @ ws)) of
         None \<Rightarrow> None | Some _ \<Rightarrow> Some (take i (g @ FENCE @ ws))) = None"
  proof (intro allI impI)
    fix i assume i: "length g < i \<and> i \<le> length (g @ FENCE @ ws)"
    then have "drop i (g @ FENCE @ ws) = drop (i - length g) (FENCE @ ws)" by simp
    moreover have "\<not> prefix FENCE (drop (i - length g) (FENCE @ ws))"
      using assms(2) i by (intro no_fence_in_tail) simp_all
    ultimately have "lit_match FENCE (drop i (g @ FENCE @ ws)) = None"
      by (simp add: lit_match_None)
    then show "(case lit_match FENCE (drop i (g @ FENCE @ ws)) of
         None \<Rightarrow> None | Some _ \<Rightarrow> Some (take i (g @ FENCE @ ws))) = None" by simp
  qed
  show "(case lit_match FENCE (drop (length g) (g @ FENCE @ ws)) of
         None \<Rightarrow> None | Some _ \<Rightarrow> Some (take (length g) (g @ FENCE @ ws))) = Some g"
    by simp
qed

lemma last_fence:
  assumes "s = g @ FENCE @ ws" "g \<noteq> []" "list_all is_space ws"
  shows "first_some (\<lambda>j. case lit_match FENCE (drop j s) of
                 None \<Rightarrow> None | Some _ \<Rightarrow> Some (take j s))
           (greedy_plus_any s) = Some g"
  unfolding assms(1) using assms(2,3) by (rule last_fence_append)

lemma codeBlockRegex_at_no_fence:
  assumes "\<not> prefix FENCE s"
  shows "codeBlockRegex_at s = None"
proof -
  have "lit_match FENCE s = None" using assms by (simp add: lit_match_None)
  then show ?thesis by (simp add: codeBlockRegex_at_def)
qed

lemma codeBlockRegex_match_hit:
  "codeBlockRegex_at s = Some g \<Longrightarrow> codeBlockRegex_match s = Some g"
  by (cases s) simp_all

lemma codeBlockRegex_match_skip:
  "\<forall>j<length sep. codeBlockRegex_at (drop j sep @ X) = None
   \<Longrightarrow> codeBlockRegex_match (sep @ X) = codeBlockRegex_match X"
proof (induction sep)
  case Nil
  then show ?case by simp
next
  case (Cons a sep)
  have "codeBlockRegex_at ((a # sep) @ X) = None"
    using Cons.prems [rule_format, of 0] by simp
  moreover have "\<forall>j<length sep. codeBlockRegex_at (drop j sep @ X) = None"
  proof (intro allI impI)
    fix j assume "j < length sep"
    then show "codeBlockRegex_at (drop j sep @ X) = None"
      using Cons.prems [rule_format, of "Suc j"] by simp
  qed
  ultimately show ?case using Cons.IH by simp
qed

lemma codeBlockRegex_match_no_fence:
  assumes "\<not> contains FENCE t"
  shows "codeBlockRegex_match t = None"
proof -
  have at_nil: "codeBlockRegex_at [] = None"
    by (rule codeBlockRegex_at_no_fence) (simp add: FENCE_eq)
  have "codeBlockRegex_match (t @ []) = codeBlockRegex_match []"
  proof (rule codeBlockRegex_match_skip, intro allI impI)
    fix j
    have "\<not> prefix FENCE (drop j t)" using assms by (rule not_contains_drop)
    then show "codeBlockRegex_at (drop j t @ []) = None"
      by (simp add: codeBlockRegex_at_no_fence)
  qed
  with at_nil show ?thesis by simp
qed

lemma codeBlockRegex_match_leading_space:
  assumes "list_all is_space ws"
  shows "codeBlockRegex_match (ws @ X) = codeBlockRegex_match X"
proof (rule codeBlockRegex_match_skip, intro allI impI)
  fix j assume j: "j < length ws"
  then have "drop j ws @ X = ws ! j # drop (Suc j) ws @ X"
    by (simp add: Cons_nth_drop_Suc)
  moreover have "is_space (ws ! j)" using assms j by (simp add: list_all_length)
  then have "ws ! j \<noteq> 96" using tick_not_space by auto
  ultimately have "\<not> prefix FENCE (drop j ws @ X)" by (simp add: FENCE_eq)
  then show "codeBlockRegex_at (drop j ws @ X) = None"
    by (rule codeBlockRegex_at_no_fence)
qed

lemma codeBlockRegex_at_tagged:
  assumes "list_all is_word tag" "tag \<noteq> []" "inner \<noteq> []" "list_all is_space ws2"
  shows "codeBlockRegex_at (FENCE @ tag @ NL # inner @ FENCE @ ws2) = Some inner"
proof -
  define r1 where "r1 = tag @ NL # inner @ FENCE @ ws2"
  have l1: "lit_match FENCE (FENCE @ tag @ NL # inner @ FENCE @ ws2) = Some r1"
    by (simp add: r1_def)
  have tw: "takeWhile is_word r1 = tag"
    unfolding r1_def using assms(1) NL_not_word by (rule takeWhile_all_then)
  have gp: "greedy_plus is_word r1 = length tag # rev [1 ..< length tag]"
    using greedy_plus_Cons [of is_word r1] assms(2) by (simp add: tw)
  have l2: "lit_match [NL] (drop (length tag) r1) = Some (inner @ FENCE @ ws2)"
    by (simp add: r1_def)
  show ?thesis
    unfolding codeBlockRegex_at_def l1 option.case gp first_some.simps l2
      last_fence [OF refl assms(3,4)] ..
qed

lemma codeBlockRegex_at_untagged:
  assumes "list_all is_space ws2"
  shows "codeBlockRegex_at (FENCE @ NL # inner @ FENCE @ ws2) = Some (NL # inner)"
proof -
  define r1 where "r1 = NL # inner @ FENCE @ ws2"
  have l1: "lit_match FENCE (FENCE @ NL # inner @ FENCE @ ws2) = Some r1"
    by (simp add: r1_def)
  have gp: "greedy_plus is_word r1 = []"
    using NL_not_word by (simp add: greedy_plus_def r1_def)
  have lf: "first_some (\<lambda>j. case lit_match FENCE (drop j r1) of
                 None \<Rightarrow> None | Some _ \<Rightarrow> Some (take j r1))
           (greedy_plus_any r1) = Some (NL # inner)"
    using assms by (intro last_fence) (simp_all add: r1_def)
  show ?thesis
    unfolding codeBlockRegex_at_def l1 option.case gp first_some.simps lf ..
qed

lemma parseCodeFromResponse_code_block:
  assumes "list_all is_space ws1" "list_all is_word tag" "list_all is_space ws2"
    "tag = [] \<or> inner \<noteq> []"
  shows "parseCodeFromResponse (code_block ws1 tag inner ws2) = trim inner"
proof -
  let ?X = "FENCE @ tag @ NL # inner @ FENCE @ ws2"
  have skip: "codeBlockRegex_match (ws1 @ ?X) = codeBlockRegex_match ?X"
    using assms(1) by (rule codeBlockRegex_match_leading_space)
  show ?thesis
  proof (cases "tag = []")
    case True
    then have "codeBlockRegex_match ?X = Some (NL # inner)"
      using assms(3) by (intro codeBlockRegex_match_hit) (simp add: codeBlockRegex_at_untagged)
    with skip show ?thesis
      by (simp add: parseCodeFromResponse_def code_block_def trim_space_Cons NL_is_space)
  next
    case False
    with assms(4) have "inner \<noteq> []" by simp
    with False have "codeBlockRegex_match ?X = Some inner"
      using assms(2,3) by (intro codeBlockRegex_match_hit codeBlockRegex_at_tagged)
    with skip \<open>inner \<noteq> []\<close> show ?thesis
      by (simp add: parseCodeFromResponse_def code_block_def)
  qed
qed

lemma parseCodeFromResponse_no_fence:
  "\<not> contains FENCE t \<Longrightarrow> parseCodeFromResponse t = trim t"
  by (simp add: parseCodeFromResponse_def codeBlockRegex_match_no_fence)


lemma greedy_plus_bound:
  "k \<in> set (greedy_plus C s) \<Longrightarrow> 1 \<le> k \<and> k \<le> length (takeWhile C s)"
  by (auto simp: greedy_plus_def)

lemma greedy_plus_any_bound: "j \<in> set (greedy_plus_any s) \<Longrightarrow> 1 \<le> j \<and> j \<le> length s"
  by (auto simp: greedy_plus_any_def)

lemma capture_before_fence:
  assumes "first_some (\<lambda>j. case lit_match FENCE (drop j r) of
                 None \<Rightarrow> None | Some _ \<Rightarrow> Some (take j r))
             (greedy_plus_any r) = Some g"
  shows "g \<noteq> [] \<and> (\<exists>b. r = g @ FENCE @ b)"
proof -
  from assms obtain j b where j: "j \<in> set (greedy_plus_any r)"
    and m: "lit_match FENCE (drop j r) = Some b" and g: "g = take j r"
    by (auto dest!: first_some_SomeD split: option.splits)
  from greedy_plus_any_bound [OF j] have "1 \<le> j" "j \<le> length r" by simp_all
  then have "g \<noteq> []" using g by auto
  moreover have "drop j r = FENCE @ b" using m by (simp add: lit_match_eq)
  then have "r = g @ FENCE @ b" unfolding g by (metis append_take_drop_id)
  ultimately show ?thesis by blast
qed

lemma codeBlockRegex_at_sound:
  assumes "codeBlockRegex_at s = Some g"
  shows "g \<noteq> [] \<and> (\<exists>tl b. s = FENCE @ tl @ g @ FENCE @ b)"
proof -
  from assms obtain r1 where r1: "lit_match FENCE s = Some r1"
    by (auto simp: codeBlockRegex_at_def split: option.splits)
  then have s: "s = FENCE @ r1" by (simp add: lit_match_eq)
  let ?tagged = "first_some (\<lambda>k.
                  case lit_match [NL] (drop k r1) of
                    None \<Rightarrow> None
                  | Some r2 \<Rightarrow>
                      first_some (\<lambda>j.
                        case lit_match FENCE (drop j r2) of
                          None \<Rightarrow> None
                        | Some _ \<Rightarrow> Some (take j r2))
                        (greedy_plus_any r2))
                  (greedy_plus is_word r1)"
  show ?thesis
  proof (cases ?tagged)
    case None
    with assms r1 have "first_some (\<lambda>j. case lit_match FENCE (drop j r1) of
                 None \<Rightarrow> None | Some _ \<Rightarrow> Some (take j r1))
             (greedy_plus_any r1) = Some g"
      by (simp add: codeBlockRegex_at_def)
    from capture_before_fence [OF this] obtain b where "g \<noteq> []" "r1 = g @ FENCE @ b" by blast
    with s have "g \<noteq> []" "s = FENCE @ [] @ g @ FENCE @ b" by simp_all
    then show ?thesis by blast
  next
    case (Some g')
    with assms r1 have "g' = g" by (simp add: codeBlockRegex_at_def)
    with Some obtain k r2 where nl: "lit_match [NL] (drop k r1) = Some r2"
      and "first_some (\<lambda>j. case lit_match FENCE (drop j r2) of
                 None \<Rightarrow> None | Some _ \<Rightarrow> Some (take j r2))
             (greedy_plus_any r2) = Some g"
      by (auto dest!: first_some_SomeD split: option.splits)
    from capture_before_fence [OF this(2)] obtain b where g: "g \<noteq> []" "r2 = g @ FENCE @ b"
      by blast
    have "drop k r1 = NL # r2" using nl by (simp add: lit_match_eq)
    then have "r1 = (take k r1 @ [NL]) @ r2" by (metis append_take_drop_id append_Cons append_Nil append_assoc)
    with s g have "s = FENCE @ (take k r1 @ [NL]) @ g @ FENCE @ b" by simp
    with g(1) show ?thesis by blast
  qed
qed

lemma codeBlockRegex_match_sound:
  "codeBlockRegex_match s = Some g \<Longrightarrow> g \<noteq> [] \<and> (\<exists>a tl b. s = a @ FENCE @ tl @ g @ FENCE @ b)"
proof (induction s)
  case Nil
  from codeBlockRegex_at_sound [of "[]" g] Nil obtain tl b where
    "g \<noteq> []" "[] = [] @ FENCE @ tl @ g @ FENCE @ b" by auto
  then show ?case by blast
next
  case (Cons c s)
  show ?case
  proof (cases "codeBlockRegex_at (c # s)")
    case None
    with Cons obtain a tl b where "g \<noteq> []" "s = a @ FENCE @ tl @ g @ FENCE @ b" by auto
    then have "g \<noteq> []" "c # s = (c # a) @ FENCE @ tl @ g @ FENCE @ b" by simp_all
    then show ?thesis by blast
  next
    case (Some g')
    with Cons.prems have "codeBlockRegex_at (c # s) = Some g" by simp
    from codeBlockRegex_at_sound [OF this] obtain tl b where
      "g \<noteq> []" "c # s = [] @ FENCE @ tl @ g @ FENCE @ b" by auto
    then show ?thesis by blast
  qed
qed

lemma parseCodeFromResponse_cases:
  "parseCodeFromResponse t = trim t
   \<or> (\<exists>a tl g b. t = a @ FENCE @ tl @ g @ FENCE @ b \<and> g \<noteq> [] \<and> parseCodeFromResponse t = trim g)"
proof (cases "codeBlockRegex_match t")
  case None
  then show ?thesis by (simp add: parseCodeFromResponse_def)
next
  case (Some g)
  from codeBlockRegex_match_sound [OF Some] obtain a tl b where
    "g \<noteq> []" "t = a @ FENCE @ tl @ g @ FENCE @ b" by blast
  moreover from this Some have "parseCodeFromResponse t = trim g"
    by (simp add: parseCodeFromResponse_def)
  ultimately show ?thesis by blast
qed


section \<open>Properties of the file system and of the handlers\<close>

lemma getAllFilePaths_below:
  "p \<in> set (getAllFilePaths dir list) \<Longrightarrow>
   \<exists>q. p = dir @ q \<and> q \<noteq> [] \<and> node_modules \<notin> set (butlast q) \<and> dot_git \<notin> set (butlast q)"
proof (induction dir list rule: getAllFilePaths.induct)
  case (1 dir)
  then show ?case by simp
next
  case (2 dir f b list)
  from "2.prems" have "p = dir @ [f] \<or> p \<in> set (getAllFilePaths dir list)" by simp
  then show ?case
  proof
    assume "p = dir @ [f]"
    then have "p = dir @ [f] \<and> [f] \<noteq> [] \<and> node_modules \<notin> set (butlast [f])
        \<and> dot_git \<notin> set (butlast [f])" by simp
    then show ?thesis by blast
  next
    assume "p \<in> set (getAllFilePaths dir list)"
    then show ?thesis by (rule "2.IH")
  qed
next
  case (3 dir f sub list)
  show ?case
  proof (cases "p \<in> set (getAllFilePaths dir list)")
    case True
    then show ?thesis by (rule "3.IH"(2))
  next
    case False
    with "3.prems" have ok: "f \<noteq> node_modules \<and> f \<noteq> dot_git"
      and "p \<in> set (getAllFilePaths (dir @ [f]) sub)"
      by (auto split: if_splits)
    from "3.IH"(1) [OF this] obtain q where
      q: "p = (dir @ [f]) @ q" "q \<noteq> []" "node_modules \<notin> set (butlast q)"
         "dot_git \<notin> set (butlast q)" by blast
    then have "p = dir @ (f # q) \<and> f # q \<noteq> [] \<and> node_modules \<notin> set (butlast (f # q))
        \<and> dot_git \<notin> set (butlast (f # q))"
      using ok by auto
    then show ?thesis by blast
  qed
qed

lemma not_existsSync_rmSync: "\<not> existsSync (rmSync es n) n"
  by (induction es) (auto simp: existsSync_def rmSync_def)

lemma not_existsSync_cleanup: "\<not> existsSync (disk (cleanup req r)) (requestTempDir req)"
  by (simp add: cleanup_def not_existsSync_rmSync)


lemma writeFileSync_read:
  "writeFileSync d q b = Some d' \<Longrightarrow>
   readFileSync d' x = (if x = q then Some b else readFileSync d x)"
proof (induction d q b arbitrary: d' x rule: writeFileSync.induct)
  case (1 es b)
  then show ?case by simp
next
  case (2 es n b)
  from "2.prems" have nd: "\<forall>sub. map_of es n \<noteq> Some (Dir sub)"
    and d': "d' = AList.update n (File b) es"
    by (auto split: option.splits node.splits)
  show ?case
  proof (cases x)
    case Nil
    then show ?thesis by simp
  next
    case (Cons m x')
    show ?thesis
    proof (cases x')
      case Nil
      with Cons show ?thesis by (simp add: d' update_conv')
    next
      case (Cons k x'')
      with \<open>x = m # x'\<close> nd show ?thesis
        by (auto simp: d' update_conv' split: option.splits node.splits)
    qed
  qed
next
  case (3 es n v va b)
  from "3.prems" obtain sub sub' where
    sub: "map_of es n = Some (Dir sub)" and w: "writeFileSync sub (v # va) b = Some sub'"
    and d': "d' = AList.update n (Dir sub') es"
    by (auto split: option.splits node.splits)
  show ?case
  proof (cases x)
    case Nil
    then show ?thesis by simp
  next
    case (Cons m x')
    show ?thesis
    proof (cases x')
      case Nil
      with Cons sub show ?thesis by (simp add: d' update_conv')
    next
      case (Cons k x'')
      show ?thesis
      proof (cases "m = n")
        case True
        with \<open>x = m # x'\<close> Cons sub "3.IH" [OF sub refl w, of x'] show ?thesis
          by (simp add: d' update_conv')
      next
        case False
        with \<open>x = m # x'\<close> Cons show ?thesis
          by (simp add: d' update_conv')
      qed
    qed
  qed
qed

lemma readable_writable:
  "readFileSync d q = Some old \<Longrightarrow> \<exists>d'. writeFileSync d q b = Some d'"
proof (induction d q arbitrary: old rule: readFileSync.induct)
  case (1 es)
  then show ?case by simp
next
  case (2 es n)
  then show ?case by (auto split: option.splits node.splits)
next
  case (3 es n v va)
  from "3.prems" obtain sub where sub: "map_of es n = Some (Dir sub)"
    and "readFileSync sub (v # va) = Some old"
    by (auto split: option.splits node.splits)
  from "3.IH" [OF this(1) refl this(2)] obtain sub' where
    "writeFileSync sub (v # va) b = Some sub'" by blast
  with sub show ?case by simp
qed

lemma getAllFilePaths_update_File:
  "map_of es n = Some (File old) \<Longrightarrow>
   getAllFilePaths dir (AList.update n (File b) es) = getAllFilePaths dir es"
proof (induction es)
  case Nil
  then show ?case by simp
next
  case (Cons a es)
  obtain m t where a: "a = (m, t)" by (cases a)
  show ?case
  proof (cases "m = n")
    case True
    with Cons.prems a show ?thesis by simp
  next
    case False
    with Cons a show ?thesis by (cases t) simp_all
  qed
qed

lemma getAllFilePaths_update_Dir:
  "map_of es n = Some (Dir sub) \<Longrightarrow>
   (\<And>dir. getAllFilePaths dir sub' = getAllFilePaths dir sub) \<Longrightarrow>
   getAllFilePaths dir (AList.update n (Dir sub') es) = getAllFilePaths dir es"
proof (induction es)
  case Nil
  then show ?case by simp
next
  case (Cons a es)
  obtain m t where a: "a = (m, t)" by (cases a)
  show ?case
  proof (cases "m = n")
    case True
    with Cons.prems a show ?thesis by simp
  next
    case False
    with Cons a show ?thesis by (cases t) simp_all
  qed
qed

lemma overwrite_same_listing:
  "readFileSync d q = Some old \<Longrightarrow> writeFileSync d q b = Some d' \<Longrightarrow>
   getAllFilePaths dir d' = getAllFilePaths dir d"
proof (induction d q b arbitrary: d' old dir rule: writeFileSync.induct)
  case (1 es b)
  then show ?case by simp
next
  case (2 es n b)
  from "2.prems"(1) obtain o' where "map_of es n = Some (File o')"
    by (auto split: option.splits node.splits)
  moreover from this "2.prems"(2) have "d' = AList.update n (File b) es" by simp
  ultimately show ?case by (simp add: getAllFilePaths_update_File)
next
  case (3 es n v va b)
  from "3.prems" obtain sub sub' where
    sub: "map_of es n = Some (Dir sub)" and r: "readFileSync sub (v # va) = Some old"
    and w: "writeFileSync sub (v # va) b = Some sub'"
    and d': "d' = AList.update n (Dir sub') es"
    by (auto split: option.splits node.splits)
  have "\<And>dir. getAllFilePaths dir sub' = getAllFilePaths dir sub"
    using "3.IH" [OF sub refl r w] .
  with sub show ?case unfolding d' by (rule getAllFilePaths_update_Dir)
qed

lemma overwrite_same_directories:
  "readFileSync d q = Some old \<Longrightarrow> writeFileSync d q b = Some d' \<Longrightarrow>
   readdirSync d root = Some l \<Longrightarrow>
   \<exists>l'. readdirSync d' root = Some l' \<and> (\<forall>dir. getAllFilePaths dir l' = getAllFilePaths dir l)"
proof (induction d q b arbitrary: d' old root l rule: writeFileSync.induct)
  case (1 es b)
  then show ?case by simp
next
  case (2 es n b)
  from "2.prems"(1) obtain o' where o': "map_of es n = Some (File o')"
    by (auto split: option.splits node.splits)
  with "2.prems"(2) have d': "d' = AList.update n (File b) es" by simp
  show ?case
  proof (cases root)
    case Nil
    with "2.prems" show ?thesis using overwrite_same_listing [OF "2.prems"(1,2)] by simp
  next
    case (Cons m root')
    with "2.prems"(3) o' have "m \<noteq> n" by (auto split: option.splits node.splits)
    with Cons "2.prems"(3) show ?thesis by (simp add: d' update_conv')
  qed
next
  case (3 es n v va b)
  from "3.prems" obtain sub sub' where
    sub: "map_of es n = Some (Dir sub)" and r: "readFileSync sub (v # va) = Some old"
    and w: "writeFileSync sub (v # va) b = Some sub'"
    and d': "d' = AList.update n (Dir sub') es"
    by (auto split: option.splits node.splits)
  show ?case
  proof (cases root)
    case Nil
    with "3.prems" show ?thesis using overwrite_same_listing [OF "3.prems"(1,2)] by simp
  next
    case (Cons m root')
    show ?thesis
    proof (cases "m = n")
      case True
      with Cons "3.prems"(3) sub have "readdirSync sub root' = Some l" by simp
      from "3.IH" [OF sub refl r w this] True Cons show ?thesis by (simp add: d' update_conv')
    next
      case False
      with Cons "3.prems"(3) show ?thesis by (simp add: d' update_conv')
    qed
  qed
qed

lemma readFileSync_below:
  "readdirSync d root = Some l \<Longrightarrow> q \<noteq> [] \<Longrightarrow> readFileSync d (root @ q) = readFileSync l q"
proof (induction d root rule: readdirSync.induct)
  case (1 es)
  then show ?case by simp
next
  case (2 es n p)
  from "2.prems"(1) obtain sub where sub: "map_of es n = Some (Dir sub)"
    and "readdirSync sub p = Some l"
    by (auto split: option.splits node.splits)
  from "2.IH" [OF sub refl this(2) "2.prems"(2)] have "readFileSync sub (p @ q) = readFileSync l q" .
  moreover have "p @ q \<noteq> []" using "2.prems"(2) by simp
  then obtain k r where "p @ q = k # r" by (cases "p @ q") auto
  ultimately show ?case using sub by simp
qed




lemma send_archive_cases:
  "send_archive e z threw archive = archive \<or> send_archive e z threw archive = Json 500 msg_server_error"
  by (simp add: send_archive_def)

lemma send_archive_ZipFolder:
  "send_archive e z threw archive = ZipFolder a folder \<Longrightarrow> archive = ZipFolder a folder"
  by (simp add: send_archive_def split: if_splits)



lemma convert_file_other:
  "x \<noteq> f \<Longrightarrow> readFileSync (disk (convert_file e ts f c r)) x = readFileSync (disk r) x"
  by (auto simp: convert_file_def Let_def writeFileSync_read split: option.splits)




lemma convert_file_agree:
  assumes "agree_except p (disk r) (disk r')" "calls r = calls r'" "trace r = trace r'"
    and "f \<noteq> p" and "readFileSync (disk r) f = Some b"
  shows "agree_except p (disk (convert_file e ts f c r)) (disk (convert_file e ts f c r'))
       \<and> calls (convert_file e ts f c r) = calls (convert_file e ts f c r')
       \<and> trace (convert_file e ts f c r) = trace (convert_file e ts f c r')"
proof (cases "generateContent e (calls r) (per_file_prompt ts (basename f) c)")
  case None
  with assms(1-3) show ?thesis by (simp add: convert_file_def Let_def)
next
  case (Some answer)
  let ?b = "utf8_encode e (parseCodeFromResponse answer)"
  from assms(1,4,5) have "readFileSync (disk r') f = Some b" by (simp add: agree_except_def)
  with assms(5) obtain d d' where d: "writeFileSync (disk r) f ?b = Some d"
    and d': "writeFileSync (disk r') f ?b = Some d'"
    using readable_writable by blast
  have "agree_except p d d'"
    using assms(1) writeFileSync_read [OF d] writeFileSync_read [OF d']
    by (simp add: agree_except_def)
  with Some d d' assms(2,3) show ?thesis by (simp add: convert_file_def Let_def)
qed

text \<open>What the loop does.\<close>

lemma convert_each_untouched:
  "p \<notin> set files \<Longrightarrow>
   readFileSync (disk (snd (convert_each e ts files r))) p = readFileSync (disk r) p"
proof (induction files arbitrary: r)
  case Nil
  then show ?case by simp
next
  case (Cons f files)
  from Cons.prems have fp: "p \<noteq> f" and rest: "p \<notin> set files" by auto
  show ?case
  proof (cases "readFileSync (disk r) f")
    case None
    then show ?thesis by simp
  next
    case (Some c)
    show ?thesis
    proof (cases "trim (utf8_decode e c) = []")
      case True
      with Some Cons.IH [OF rest] show ?thesis by simp
    next
      case False
      with Some Cons.IH [OF rest, of "convert_file e ts f (utf8_decode e c) r"]
        convert_file_other [OF fp]
      show ?thesis by simp
    qed
  qed
qed



lemma convert_each_agree:
  assumes "agree_except p (disk r) (disk r')" "calls r = calls r'" "trace r = trace r'"
    "p \<notin> set files"
  shows "fst (convert_each e ts files r) = fst (convert_each e ts files r')
       \<and> trace (snd (convert_each e ts files r)) = trace (snd (convert_each e ts files r'))"
  using assms
proof (induction files arbitrary: r r')
  case Nil
  then show ?case by simp
next
  case (Cons f files)
  from Cons.prems(4) have fp: "f \<noteq> p" and rest: "p \<notin> set files" by auto
  from Cons.prems(1) fp have same: "readFileSync (disk r) f = readFileSync (disk r') f"
    by (simp add: agree_except_def)
  show ?case
  proof (cases "readFileSync (disk r) f")
    case None
    with same Cons.prems(3) show ?thesis by simp
  next
    case (Some c)
    with same have c': "readFileSync (disk r') f = Some c" by simp
    show ?thesis
    proof (cases "trim (utf8_decode e c) = []")
      case True
      with Some c' show ?thesis using Cons.IH [OF Cons.prems(1-3) rest] by simp
    next
      case False
      from convert_file_agree [OF Cons.prems(1-3) fp Some, of e ts "utf8_decode e c"]
      have "agree_except p (disk (convert_file e ts f (utf8_decode e c) r))
              (disk (convert_file e ts f (utf8_decode e c) r'))"
        "calls (convert_file e ts f (utf8_decode e c) r)
           = calls (convert_file e ts f (utf8_decode e c) r')"
        "trace (convert_file e ts f (utf8_decode e c) r)
           = trace (convert_file e ts f (utf8_decode e c) r')"
        by simp_all
      from Cons.IH [OF this rest] show ?thesis using Some c' False by simp
    qed
  qed
qed




lemma projectContext_cong:
  "\<forall>f \<in> set files. readFileSync d' f = readFileSync d f \<Longrightarrow>
   projectContext e root d' files = projectContext e root d files"
  by (induction files) (simp_all split: option.splits)

lemma codeFiles_allowed: "f \<in> set (codeFiles_of e fs) \<Longrightarrow> extname e f \<in> set CODE_EXTENSIONS"
  by (simp add: codeFiles_of_def)


lemma overwrite_readdir_None:
  "readFileSync d q = Some old \<Longrightarrow> writeFileSync d q b = Some d' \<Longrightarrow>
   readdirSync d root = None \<Longrightarrow> readdirSync d' root = None"
proof (induction d q b arbitrary: d' old root rule: writeFileSync.induct)
  case (1 es b)
  then show ?case by simp
next
  case (2 es n b)
  from "2.prems"(1) obtain o' where o': "map_of es n = Some (File o')"
    by (auto split: option.splits node.splits)
  with "2.prems"(2) have d': "d' = AList.update n (File b) es" by simp
  from "2.prems"(3) obtain m root' where root: "root = m # root'" by (cases root) auto
  show ?case
  proof (cases "m = n")
    case True
    then show ?thesis by (simp add: root d' update_conv')
  next
    case False
    with "2.prems"(3) show ?thesis by (simp add: root d' update_conv')
  qed
next
  case (3 es n v va b)
  from "3.prems" obtain sub sub' where
    sub: "map_of es n = Some (Dir sub)" and r: "readFileSync sub (v # va) = Some old"
    and w: "writeFileSync sub (v # va) b = Some sub'"
    and d': "d' = AList.update n (Dir sub') es"
    by (auto split: option.splits node.splits)
  from "3.prems"(3) obtain m root' where root: "root = m # root'" by (cases root) auto
  show ?case
  proof (cases "m = n")
    case True
    with root "3.prems"(3) sub have "readdirSync sub root' = None" by simp
    from "3.IH" [OF sub refl r w this] True show ?thesis by (simp add: root d' update_conv')
  next
    case False
    with "3.prems"(3) show ?thesis by (simp add: root d' update_conv')
  qed
qed

lemma whole_project_steps_cong:
  assumes "calls r' = calls r" "trace r' = trace r"
    and "readdirSync (disk r') (extractPath req) = None \<longleftrightarrow> readdirSync (disk r) (extractPath req) = None"
    and "\<And>l l'. readdirSync (disk r) (extractPath req) = Some l \<Longrightarrow>
           readdirSync (disk r') (extractPath req) = Some l' \<Longrightarrow>
           getAllFilePaths (extractPath req) l' = getAllFilePaths (extractPath req) l"
    and "\<And>l f. readdirSync (disk r) (extractPath req) = Some l \<Longrightarrow>
           f \<in> set (codeFiles_of e (getAllFilePaths (extractPath req) l)) \<Longrightarrow>
           readFileSync (disk r') f = readFileSync (disk r) f"
  shows "fst (whole_project_steps e req z ts r') = fst (whole_project_steps e req z ts r)
       \<and> trace (snd (whole_project_steps e req z ts r')) = trace (snd (whole_project_steps e req z ts r))"
proof (cases "readdirSync (disk r) (extractPath req)")
  case None
  with assms(3) have "readdirSync (disk r') (extractPath req) = None" by simp
  with None assms(2) show ?thesis by (simp add: whole_project_steps_def)
next
  case (Some l)
  with assms(3) obtain l' where l': "readdirSync (disk r') (extractPath req) = Some l'" by auto
  have files: "getAllFilePaths (extractPath req) l' = getAllFilePaths (extractPath req) l"
    using Some l' by (rule assms(4))
  have ctx: "projectContext e (extractPath req) (disk r')
               (codeFiles_of e (getAllFilePaths (extractPath req) l))
           = projectContext e (extractPath req) (disk r)
               (codeFiles_of e (getAllFilePaths (extractPath req) l))"
    using assms(5) [OF Some] by (intro projectContext_cong) simp
  show ?thesis
    using Some l' assms(1,2)
    by (simp add: whole_project_steps_def files ctx Let_def split: option.splits)
qed

lemmas demo_defs =
  demo_extname_def demo_project_def demo_upload_def demo_request_def demo_env_def demo_disk_def
  demo_run_def demo_set_throws_def


lemmas handler_defs =
  convert_whole_project_def whole_project_try_def whole_project_steps_def
  convert_per_file_def per_file_try_def per_file_steps_def convert_file_def
  extract_archive_def cleanup_def
  existsSync_def rmSync_def codeFiles_of_def CODE_EXTENSIONS_def extractPath_def
  relative_def basename_def attachment_def node_modules_def dot_git_def
  send_archive_def content_type_def content_disposition_def


section \<open>Claims about the whole-project parser\<close>


lemmas eval_defs =
  lit_def NL_def is_space_def non_space_def is_lower_def is_word_def trim_def
  START_FILE_def END_FILE_def FENCE_def block_def wf_path_def wf_block_def free_text_def
  greedy_plus_def greedy_star_def lazy_star_any_def greedy_plus_any_def


text \<open>
  C10. Every entry the parser returns has a non-empty path without whitespace. A block
  whose start line carries a path with whitespace in it (the path stays on the start
  line, so it holds no line feed) is not matched at its start marker; a response that
  holds no other start marker gives no entry at all.
\<close>

theorem parseAIResponse_path_no_whitespace:
  "(\<forall>e \<in> set (parseAIResponse t). path e \<noteq> [] \<and> list_all non_space (path e))
   \<and> ((\<exists>x \<in> set p. is_space x) \<and> NL \<notin> set p \<longrightarrow> fileRegex_at (block p c @ rest) = None)
   \<and> ((\<exists>x \<in> set p. is_space x) \<and> NL \<notin> set p \<and> free_text pre
        \<and> free_text (p @ NL # c @ NL # END_FILE @ p @ post)
      \<longrightarrow> parseAIResponse (pre @ block p c @ post) = [])"
proof (intro conjI ballI impI)
  fix e assume "e \<in> set (parseAIResponse t)"
  then have "wf_path (path e)"
    unfolding parseAIResponse_def by (auto dest: parse_sound simp: wf_block_def)
  then show "path e \<noteq> []" "list_all non_space (path e)"
    by (simp_all add: wf_path_def)
next
  assume "(\<exists>x \<in> set p. is_space x) \<and> NL \<notin> set p"
  then show "fileRegex_at (block p c @ rest) = None"
    by (intro fileRegex_at_space_path) simp_all
next
  assume "(\<exists>x \<in> set p. is_space x) \<and> NL \<notin> set p \<and> free_text pre
        \<and> free_text (p @ NL # c @ NL # END_FILE @ p @ post)"
  then show "parseAIResponse (pre @ block p c @ post) = []"
    unfolding parseAIResponse_def by (intro parse_space_path) simp_all
qed

theorem parseAIResponse_path_no_whitespace_witness:
  "\<lparr>path = lit ''a.js'', content = lit ''x''\<rparr>
      \<in> set (parseAIResponse (block (lit ''a.js'') (lit ''x'')))
   \<and> list_all non_space (lit ''a.js'')
   \<and> (\<exists>x \<in> set (lit ''my file.js''). is_space x) \<and> NL \<notin> set (lit ''my file.js'')
   \<and> free_text (lit ''ok '')
   \<and> free_text (lit ''my file.js'' @ NL # lit ''x'' @ NL # END_FILE @ lit ''my file.js'' @ [NL])
   \<and> fileRegex_at (block (lit ''my file.js'') (lit ''x'') @ [NL]) = None
   \<and> parseAIResponse (lit ''ok '' @ block (lit ''my file.js'') (lit ''x'') @ [NL]) = []"
proof -
  have a: "\<lparr>path = lit ''a.js'', content = lit ''x''\<rparr>
      \<in> set (parseAIResponse (block (lit ''a.js'') (lit ''x'')))"
    by (simp add: parseAIResponse_def parseAIResponse_from.simps fileRegex_at_def
        convert_block_def markdownFence_match_def fence_tail_def eval_defs)
  have b: "(\<exists>x \<in> set (lit ''my file.js''). is_space x) \<and> NL \<notin> set (lit ''my file.js'')"
    by (simp add: eval_defs)
  have c: "free_text (lit ''ok '')"
    by (simp add: eval_defs)
  have d: "free_text (lit ''my file.js'' @ NL # lit ''x'' @ NL # END_FILE @ lit ''my file.js'' @ [NL])"
    by (simp add: eval_defs)
  have e: "list_all non_space (lit ''a.js'')"
    by (simp add: eval_defs)
  from parseAIResponse_path_no_whitespace
    [of "block (lit ''a.js'') (lit ''x'')" "lit ''my file.js''" "lit ''x''" "[NL]" "lit ''ok ''" "[NL]"]
    a b c d e show ?thesis by simp
qed

text \<open>
  C3, as the code has it. Every returned entry comes from a captured block. When the
  captured content is, between optional whitespace, an opening fence with a tag of
  lower-case letters \<^verbatim>\<open>a-z\<close> (possibly none), a line feed, an inner text, a line feed and
  the closing fence, the returned content is the inner text, trimmed. When the captured
  content has no such shape, the returned content is the captured content, trimmed.
\<close>

theorem parseAIResponse_fence_stripped_then_trimmed:
  "(\<forall>e \<in> set (parseAIResponse t).
      \<exists>pre c rest. wf_block (path e) c \<and> t = pre @ block (path e) c @ rest
        \<and> e = convert_block (path e) c)
   \<and> (list_all is_space ws1 \<and> list_all is_lower tag \<and> list_all is_space ws2
      \<longrightarrow> convert_block p (fence_wrap ws1 tag inner ws2) = \<lparr>path = p, content = trim inner\<rparr>)
   \<and> ((\<nexists>ws1 tag inner ws2. list_all is_space ws1 \<and> list_all is_lower tag \<and> list_all is_space ws2
          \<and> c = fence_wrap ws1 tag inner ws2)
      \<longrightarrow> convert_block p c = \<lparr>path = p, content = trim c\<rparr>)"
proof (intro conjI ballI impI)
  fix e assume "e \<in> set (parseAIResponse t)"
  then have "e \<in> set (parseAIResponse_from t)" by (simp add: parseAIResponse_def)
  from parse_sound [OF this]
  show "\<exists>pre c rest. wf_block (path e) c \<and> t = pre @ block (path e) c @ rest
      \<and> e = convert_block (path e) c" .
next
  assume "list_all is_space ws1 \<and> list_all is_lower tag \<and> list_all is_space ws2"
  then have "markdownFence_match (fence_wrap ws1 tag inner ws2) = Some inner"
    by (intro markdownFence_match_wrap) simp_all
  then show "convert_block p (fence_wrap ws1 tag inner ws2) = \<lparr>path = p, content = trim inner\<rparr>"
    by (simp add: convert_block_def)
next
  assume no: "\<nexists>ws1 tag inner ws2. list_all is_space ws1 \<and> list_all is_lower tag
      \<and> list_all is_space ws2 \<and> c = fence_wrap ws1 tag inner ws2"
  have "markdownFence_match c = None"
  proof (cases "markdownFence_match c")
    case (Some inner)
    from markdownFence_match_sound [OF this] no show ?thesis by blast
  qed simp
  then show "convert_block p c = \<lparr>path = p, content = trim c\<rparr>"
    by (simp add: convert_block_def)
qed

theorem parseAIResponse_fence_stripped_then_trimmed_witness:
  "\<lparr>path = lit ''a'', content = lit ''x''\<rparr>
      \<in> set (parseAIResponse (block (lit ''a'') (lit '' x'')))
   \<and> list_all is_space (lit '' '') \<and> list_all is_lower (lit ''json'') \<and> list_all is_space [NL]
   \<and> convert_block (lit ''a'') (fence_wrap (lit '' '') (lit ''json'') (lit '' {} '') [NL])
       = \<lparr>path = lit ''a'', content = lit ''{}''\<rparr>
   \<and> (\<nexists>ws1 tag inner ws2. list_all is_space ws1 \<and> list_all is_lower tag \<and> list_all is_space ws2
          \<and> lit '' x'' = fence_wrap ws1 tag inner ws2)
   \<and> convert_block (lit ''a'') (lit '' x'') = \<lparr>path = lit ''a'', content = lit ''x''\<rparr>"
proof -
  have a: "\<lparr>path = lit ''a'', content = lit ''x''\<rparr>
      \<in> set (parseAIResponse (block (lit ''a'') (lit '' x'')))"
    by (simp add: parseAIResponse_def parseAIResponse_from.simps fileRegex_at_def
        convert_block_def markdownFence_match_def fence_tail_def eval_defs)
  have b: "list_all is_space (lit '' '') \<and> list_all is_lower (lit ''json'') \<and> list_all is_space [NL]"
    by (simp add: eval_defs)
  have "96 \<in> set (fence_wrap ws1 tag inner ws2)" for ws1 tag inner ws2
    by (simp add: fence_wrap_def FENCE_eq)
  moreover have "96 \<notin> set (lit '' x'')"
    by (simp add: lit_def)
  ultimately have c: "\<nexists>ws1 tag inner ws2. list_all is_space ws1 \<and> list_all is_lower tag
      \<and> list_all is_space ws2 \<and> lit '' x'' = fence_wrap ws1 tag inner ws2"
    by metis
  have d: "trim (lit '' {} '') = lit ''{}''" "trim (lit '' x'') = lit ''x''"
    by (simp_all add: eval_defs)
  from parseAIResponse_fence_stripped_then_trimmed
    [of "block (lit ''a'') (lit '' x'')" "lit '' ''" "lit ''json''" "[NL]" "lit ''a''" "lit '' {} ''"
       "lit '' x''"]
    a b c d show ?thesis by simp
qed

text \<open>
  C3 as stated fails: an unfenced captured content is not returned untouched. In the
  response below the content captured between the delimiter lines is \<^verbatim>\<open>" x"\<close>, it is not
  wrapped in a fence, and the entry returned holds \<^verbatim>\<open>"x"\<close>: \<^verbatim>\<open>fileContent.trim()\<close> is
  applied on every path.
\<close>

theorem parseAIResponse_unfenced_content_trimmed:
  "fileRegex_exec (lit ''// START_FILE: a\<newline> x\<newline>// END_FILE: a'') = Some (lit ''a'', lit '' x'', [])
   \<and> markdownFence_match (lit '' x'') = None
   \<and> parseAIResponse (lit ''// START_FILE: a\<newline> x\<newline>// END_FILE: a'')
       = [\<lparr>path = lit ''a'', content = lit ''x''\<rparr>]
   \<and> lit ''x'' \<noteq> lit '' x''"
  by (simp add: parseAIResponse_def parseAIResponse_from.simps fileRegex_at_def
      convert_block_def markdownFence_match_def fence_tail_def eval_defs)


section \<open>Claims about the per-file parser\<close>

text \<open>
  C4, as the code has it. \<open>parseCodeFromResponse\<close> is a total function on strings (it is
  defined by recursion on the input and has no failing branch): on every input it
  returns the trimmed input, or the trimmed non-empty text that it captured between two
  fences of the input. On a response that is,
  between optional whitespace, one fenced block (the opening fence, then either a line
  feed at once or a tag of word characters \<^verbatim>\<open>[A-Za-z0-9_]\<close>, a line feed and a non-empty
  inner text, then the closing fence) it returns the inner text, trimmed; the result
  holds no fence when the inner text holds none. On a response without any fence it
  returns the response, trimmed.
\<close>

theorem parseCodeFromResponse_fenced_or_trimmed:
  "(parseCodeFromResponse t = trim t
      \<or> (\<exists>a tl g b. t = a @ FENCE @ tl @ g @ FENCE @ b \<and> g \<noteq> []
            \<and> parseCodeFromResponse t = trim g))
   \<and> (list_all is_space ws1 \<and> list_all is_word tag \<and> list_all is_space ws2
      \<and> (tag = [] \<or> inner \<noteq> [])
     \<longrightarrow> parseCodeFromResponse (code_block ws1 tag inner ws2) = trim inner
       \<and> (\<not> contains FENCE inner
          \<longrightarrow> \<not> contains FENCE (parseCodeFromResponse (code_block ws1 tag inner ws2))))
   \<and> (\<not> contains FENCE t \<longrightarrow> parseCodeFromResponse t = trim t)"
proof (intro conjI impI)
  show "parseCodeFromResponse t = trim t
      \<or> (\<exists>a tl g b. t = a @ FENCE @ tl @ g @ FENCE @ b \<and> g \<noteq> []
            \<and> parseCodeFromResponse t = trim g)"
    by (rule parseCodeFromResponse_cases)
next
  assume a: "list_all is_space ws1 \<and> list_all is_word tag \<and> list_all is_space ws2
      \<and> (tag = [] \<or> inner \<noteq> [])"
  then show r: "parseCodeFromResponse (code_block ws1 tag inner ws2) = trim inner"
    by (intro parseCodeFromResponse_code_block) simp_all
  assume "\<not> contains FENCE inner"
  then have "\<not> contains FENCE (trim inner)" using contains_trim by blast
  with r show "\<not> contains FENCE (parseCodeFromResponse (code_block ws1 tag inner ws2))"
    by simp
next
  assume "\<not> contains FENCE t"
  then show "parseCodeFromResponse t = trim t" by (rule parseCodeFromResponse_no_fence)
qed

theorem parseCodeFromResponse_fenced_or_trimmed_witness:
  "list_all is_space [NL] \<and> list_all is_word (lit ''vue'') \<and> list_all is_space (lit '' '')
   \<and> lit ''<p/>'' @ [NL] \<noteq> []
   \<and> \<not> contains FENCE (lit ''<p/>'' @ [NL])
   \<and> parseCodeFromResponse (code_block [NL] (lit ''vue'') (lit ''<p/>'' @ [NL]) (lit '' ''))
       = lit ''<p/>''
   \<and> \<not> contains FENCE (parseCodeFromResponse
         (code_block [NL] (lit ''vue'') (lit ''<p/>'' @ [NL]) (lit '' '')))
   \<and> \<not> contains FENCE (lit '' a `` b '')
   \<and> parseCodeFromResponse (lit '' a `` b '') = lit ''a `` b''"
proof -
  have a: "list_all is_space [NL] \<and> list_all is_word (lit ''vue'') \<and> list_all is_space (lit '' '')
      \<and> lit ''<p/>'' @ [NL] \<noteq> []"
    by (simp add: eval_defs)
  have b: "\<not> contains FENCE (lit ''<p/>'' @ [NL])" "\<not> contains FENCE (lit '' a `` b '')"
    "\<not> contains FENCE (lit ''<p/>'')"
    by (simp_all add: eval_defs)
  have c: "trim (lit ''<p/>'' @ [NL]) = lit ''<p/>''" "trim (lit '' a `` b '') = lit ''a `` b''"
    by (simp_all add: eval_defs)
  from parseCodeFromResponse_fenced_or_trimmed
    [where ?ws1.0 = "[NL]" and tag = "lit ''vue''" and ?ws2.0 = "lit '' ''"
       and inner = "lit ''<p/>'' @ [NL]" and t = "lit '' a `` b ''"]
    a b c show ?thesis by simp
qed

text \<open>
  C4 as stated fails on a fenced block with a tag and an empty inner text: the optional
  tag group cannot be followed by the one unit that \<^verbatim>\<open>[\s\S]+\<close> needs, so the pattern
  matches without it and the tag itself is returned. It fails too when the tag holds a
  unit outside \<^verbatim>\<open>\w\<close>: the tag line stays in the result.
\<close>

theorem parseCodeFromResponse_returns_tag:
  "code_block [] (lit ''js'') [] [] = lit ''```js\<newline>```''
   \<and> parseCodeFromResponse (lit ''```js\<newline>```'') = lit ''js''
   \<and> code_block [] (lit ''c++'') (lit ''x\<newline>'') [] = lit ''```c++\<newline>x\<newline>```''
   \<and> parseCodeFromResponse (lit ''```c++\<newline>x\<newline>```'') = lit ''c++\<newline>x''"
  by (simp add: parseCodeFromResponse_def codeBlockRegex_at_def code_block_def eval_defs)


section \<open>Claims about file discovery\<close>

text \<open>
  C9. File discovery yields only paths below the directory it is given, and no directory
  on the way from there to a yielded file is named \<^verbatim>\<open>node_modules\<close> or \<^verbatim>\<open>.git\<close>, at any depth.
\<close>

theorem getAllFilePaths_skips_dependency_and_vcs_directories:
  "\<forall>p \<in> set (getAllFilePaths dir list).
     \<exists>q. p = dir @ q \<and> q \<noteq> [] \<and> node_modules \<notin> set (butlast q) \<and> dot_git \<notin> set (butlast q)"
  using getAllFilePaths_below by blast

theorem getAllFilePaths_skips_dependency_and_vcs_directories_witness:
  "getAllFilePaths [lit ''source''] demo_project
     = [[lit ''source'', lit ''src'', lit ''App.jsx''], [lit ''source'', lit ''src'', lit ''logo.png'']]
   \<and> (\<exists>q. [lit ''source'', lit ''src'', lit ''App.jsx''] = [lit ''source''] @ q \<and> q \<noteq> []
          \<and> node_modules \<notin> set (butlast q) \<and> dot_git \<notin> set (butlast q))"
proof -
  have a: "getAllFilePaths [lit ''source''] demo_project
     = [[lit ''source'', lit ''src'', lit ''App.jsx''], [lit ''source'', lit ''src'', lit ''logo.png'']]"
    by (simp add: demo_project_def node_modules_def dot_git_def lit_def)
  from getAllFilePaths_skips_dependency_and_vcs_directories [of "[lit ''source'']" demo_project] a
  show ?thesis by simp
qed


section \<open>Claims about the handlers\<close>

text \<open>
  C6. Once a request has passed the validation, so that the \<^verbatim>\<open>try\<close> block is entered,
  its workspace directory does not exist when the handler is done, whatever the archive
  library, the file system and the model did.
\<close>

theorem workspace_removed_on_every_path:
  "(GEMINI_API_KEY e \<and> sourceCode req = Some z \<and> targetStack req = Some ts \<and> ts \<noteq> []
      \<longrightarrow> \<not> existsSync (disk (snd (convert_whole_project e req r))) (requestTempDir req))
   \<and> (GEMINI_API_KEY e \<and> projectZip req = Some z \<and> targetStack req = Some ts \<and> ts \<noteq> []
        \<and> (mimetype z = lit ''application/zip'' \<or> mimetype z = lit ''application/x-zip-compressed'')
      \<longrightarrow> \<not> existsSync (disk (snd (convert_per_file e req r))) (requestTempDir req))"
proof (intro conjI impI)
  assume "GEMINI_API_KEY e \<and> sourceCode req = Some z \<and> targetStack req = Some ts \<and> ts \<noteq> []"
  then have "snd (convert_whole_project e req r) = cleanup req (snd (whole_project_try e req z ts r))"
    by (simp add: convert_whole_project_def split_beta)
  then show "\<not> existsSync (disk (snd (convert_whole_project e req r))) (requestTempDir req)"
    by (simp add: not_existsSync_cleanup)
next
  assume "GEMINI_API_KEY e \<and> projectZip req = Some z \<and> targetStack req = Some ts \<and> ts \<noteq> []
        \<and> (mimetype z = lit ''application/zip'' \<or> mimetype z = lit ''application/x-zip-compressed'')"
  then have "snd (convert_per_file e req r) = cleanup req (snd (per_file_try e req z ts r))"
    by (auto simp: convert_per_file_def split_beta)
  then show "\<not> existsSync (disk (snd (convert_per_file e req r))) (requestTempDir req)"
    by (simp add: not_existsSync_cleanup)
qed

theorem workspace_removed_on_every_path_witness:
  "GEMINI_API_KEY (demo_env True (\<lambda>k p. None))
   \<and> sourceCode demo_request = Some demo_upload \<and> projectZip demo_request = Some demo_upload
   \<and> targetStack demo_request = Some (lit ''Vue'') \<and> lit ''Vue'' \<noteq> []
   \<and> mimetype demo_upload = lit ''application/zip''
   \<and> existsSync (disk (snd (extract_archive (demo_env True (\<lambda>k p. None)) demo_request
           demo_upload demo_run))) (requestTempDir demo_request)
   \<and> snd (convert_whole_project (demo_env True (\<lambda>k p. None)) demo_request demo_run)
       = \<lparr>disk = [], calls = 1,
          trace = [ExtractAllTo (extractPath demo_request),
                   GenerateContent (whole_project_prompt (lit ''Vue'')
                     (lit ''File: src/App.jsx'' @ [NL] @ FENCE @ [NL] @ lit ''<b/>'' @ [NL] @ FENCE)),
                   RmSync (requestTempDir demo_request)]\<rparr>
   \<and> \<not> existsSync (disk (snd (convert_whole_project (demo_env True (\<lambda>k p. None))
           demo_request demo_run))) (requestTempDir demo_request)
   \<and> \<not> existsSync (disk (snd (convert_per_file (demo_env True (\<lambda>k p. None))
           demo_request demo_run))) (requestTempDir demo_request)"
proof -
  have a: "GEMINI_API_KEY (demo_env True (\<lambda>k p. None))
   \<and> sourceCode demo_request = Some demo_upload \<and> projectZip demo_request = Some demo_upload
   \<and> targetStack demo_request = Some (lit ''Vue'') \<and> lit ''Vue'' \<noteq> []
   \<and> mimetype demo_upload = lit ''application/zip''"
    by (simp add: demo_env_def demo_request_def demo_upload_def lit_def)
  have b: "existsSync (disk (snd (extract_archive (demo_env True (\<lambda>k p. None)) demo_request
           demo_upload demo_run))) (requestTempDir demo_request)
   \<and> snd (convert_whole_project (demo_env True (\<lambda>k p. None)) demo_request demo_run)
       = \<lparr>disk = [], calls = 1,
          trace = [ExtractAllTo (extractPath demo_request),
                   GenerateContent (whole_project_prompt (lit ''Vue'')
                     (lit ''File: src/App.jsx'' @ [NL] @ FENCE @ [NL] @ lit ''<b/>'' @ [NL] @ FENCE)),
                   RmSync (requestTempDir demo_request)]\<rparr>"
    by (simp add: handler_defs demo_defs eval_defs Let_def)
  from workspace_removed_on_every_path
    [of "demo_env True (\<lambda>k p. None)" demo_request demo_upload "lit ''Vue''" demo_run] a
  have "\<not> existsSync (disk (snd (convert_whole_project (demo_env True (\<lambda>k p. None))
           demo_request demo_run))) (requestTempDir demo_request)
   \<and> \<not> existsSync (disk (snd (convert_per_file (demo_env True (\<lambda>k p. None))
           demo_request demo_run))) (requestTempDir demo_request)"
    by simp
  with a b show ?thesis by (simp only: simp_thms)
qed

text \<open>
  C7, as the code has it. A request without the upload field, or without a non-empty
  target stack, is answered with a JSON error and nothing else happens: the disk is as
  it was and no effect was performed, so no workspace directory ever appears. The status
  is 400 when the server has its API key, and the 500 of the missing key otherwise,
  since that check comes first.
\<close>

theorem validation_before_workspace:
  "(sourceCode req = None \<or> targetStack req = None \<or> targetStack req = Some []
      \<longrightarrow> convert_whole_project e req r =
           (if \<not> GEMINI_API_KEY e then Json 500 msg_no_key
            else if sourceCode req = None then Json 400 msg_no_sourceCode
            else Json 400 msg_no_targetStack, r))
   \<and> (projectZip req = None \<or> targetStack req = None \<or> targetStack req = Some []
      \<longrightarrow> convert_per_file e req r =
           (if \<not> GEMINI_API_KEY e then Json 500 msg_no_key
            else if projectZip req = None then Json 400 msg_no_projectZip
            else Json 400 msg_no_targetStack, r))"
  by (auto simp: convert_whole_project_def convert_per_file_def split: option.splits)

theorem validation_before_workspace_witness:
  "targetStack (demo_request\<lparr>targetStack := None\<rparr>) = None
   \<and> convert_whole_project (demo_env True (\<lambda>k p. None)) (demo_request\<lparr>targetStack := None\<rparr>)
        demo_run = (Json 400 msg_no_targetStack, demo_run)
   \<and> convert_per_file (demo_env True (\<lambda>k p. None)) (demo_request\<lparr>targetStack := None\<rparr>)
        demo_run = (Json 400 msg_no_targetStack, demo_run)"
proof -
  have a: "targetStack (demo_request\<lparr>targetStack := None\<rparr>) = None"
    "GEMINI_API_KEY (demo_env True (\<lambda>k p. None))"
    "sourceCode (demo_request\<lparr>targetStack := None\<rparr>) = Some demo_upload"
    "projectZip (demo_request\<lparr>targetStack := None\<rparr>) = Some demo_upload"
    by (simp_all add: demo_env_def demo_request_def)
  from validation_before_workspace
    [of "demo_request\<lparr>targetStack := None\<rparr>" "demo_env True (\<lambda>k p. None)" demo_run] a
  show ?thesis by simp
qed

text \<open>
  C7 as stated fails on a server that runs without its API key: the check of the key
  comes first, and a request without the target stack is answered with status 500.
\<close>

theorem missing_field_without_key_is_500:
  "targetStack (demo_request\<lparr>targetStack := None\<rparr>) = None
   \<and> convert_whole_project (demo_env False (\<lambda>k p. None)) (demo_request\<lparr>targetStack := None\<rparr>)
        demo_run = (Json 500 msg_no_key, demo_run)
   \<and> convert_per_file (demo_env False (\<lambda>k p. None)) (demo_request\<lparr>targetStack := None\<rparr>)
        demo_run = (Json 500 msg_no_key, demo_run)"
  by (simp add: convert_whole_project_def convert_per_file_def demo_env_def demo_request_def)

text \<open>
  C2, as the code has it. Let no block occur in the response, where a block is the start
  marker with a non-empty path without whitespace, a line feed, the content, a line feed
  and the end marker followed by the same path, whatever follows that path. Then the
  parser gives no entry, and the whole-project handler, having received the response
  from the model, answers with status 500 and the message of the unparsable response,
  which no other 500 of the handler carries; the answer is a JSON error, not an archive.
  By \<open>parse_complete\<close> these are all the responses that give no entry.
\<close>

theorem unparsable_response_is_reported:
  assumes "GEMINI_API_KEY e" "sourceCode req = Some z" "targetStack req = Some ts" "ts \<noteq> []"
    and "extractAllTo e (data z) (extractPath req) (disk r) = (d1, False)"
    and "readdirSync d1 (extractPath req) = Some list"
    and "projectContext e (extractPath req) d1
           (codeFiles_of e (getAllFilePaths (extractPath req) list)) = Some ctx"
    and "generateContent e (calls r)
           (whole_project_prompt ts (join (lit ''\<newline>\<newline>---\<newline>\<newline>'') ctx)) = Some t"
    and "\<nexists>pre p c rest. wf_block p c \<and> t = pre @ block p c @ rest"
  shows "parseAIResponse t = []
       \<and> fst (convert_whole_project e req r) = Json 500 msg_unparsable
       \<and> msg_unparsable \<noteq> msg_server_error \<and> msg_unparsable \<noteq> msg_no_key"
proof -
  have distinct_msg: "msg_unparsable \<noteq> msg_server_error" "msg_unparsable \<noteq> msg_no_key"
    by (simp_all add: msg_unparsable_def msg_server_error_def msg_no_key_def lit_def)
  have none: "parseAIResponse t = []"
  proof (cases "parseAIResponse t")
    case (Cons x xs)
    then have "x \<in> set (parseAIResponse_from t)" by (simp add: parseAIResponse_def)
    from parse_sound [OF this] assms(9) show ?thesis by blast
  qed simp
  have "fst (whole_project_steps e req z ts
           (r\<lparr>disk := d1, trace := trace r @ [ExtractAllTo (extractPath req)]\<rparr>))
        = Json 500 msg_unparsable"
    using assms(6-8) none by (simp add: whole_project_steps_def Let_def)
  then have "fst (whole_project_try e req z ts r) = Json 500 msg_unparsable"
    using assms(5) by (simp add: whole_project_try_def extract_archive_def)
  then have "fst (convert_whole_project e req r) = Json 500 msg_unparsable"
    using assms(1-4) by (simp add: convert_whole_project_def split_beta)
  with none distinct_msg show ?thesis by simp
qed

theorem unparsable_response_is_reported_witness:
  "GEMINI_API_KEY (demo_env True (\<lambda>k p. Some (lit ''Sorry.'')))
   \<and> sourceCode demo_request = Some demo_upload
   \<and> targetStack demo_request = Some (lit ''Vue'') \<and> lit ''Vue'' \<noteq> []
   \<and> extractAllTo (demo_env True (\<lambda>k p. Some (lit ''Sorry.''))) (data demo_upload)
        (extractPath demo_request) (disk demo_run) = (demo_disk, False)
   \<and> readdirSync demo_disk (extractPath demo_request) = Some demo_project
   \<and> projectContext (demo_env True (\<lambda>k p. Some (lit ''Sorry.''))) (extractPath demo_request)
        demo_disk
        (codeFiles_of (demo_env True (\<lambda>k p. Some (lit ''Sorry.'')))
           (getAllFilePaths (extractPath demo_request) demo_project))
       = Some [lit ''File: src/App.jsx'' @ [NL] @ FENCE @ [NL] @ lit ''<b/>'' @ [NL] @ FENCE]
   \<and> (\<nexists>pre p c rest. wf_block p c \<and> lit ''Sorry.'' = pre @ block p c @ rest)
   \<and> parseAIResponse (lit ''Sorry.'') = []
   \<and> fst (convert_whole_project (demo_env True (\<lambda>k p. Some (lit ''Sorry.'')))
        demo_request demo_run) = Json 500 msg_unparsable"
proof -
  let ?e = "demo_env True (\<lambda>k p. Some (lit ''Sorry.''))"
  have a: "GEMINI_API_KEY ?e" "sourceCode demo_request = Some demo_upload"
    "targetStack demo_request = Some (lit ''Vue'')" "lit ''Vue'' \<noteq> []"
    by (simp_all add: demo_env_def demo_request_def lit_def)
  have b: "extractAllTo ?e (data demo_upload) (extractPath demo_request) (disk demo_run)
      = (demo_disk, False)"
    by (simp add: demo_env_def demo_run_def demo_disk_def extractPath_def)
  have c: "readdirSync demo_disk (extractPath demo_request) = Some demo_project"
    by (simp add: demo_disk_def extractPath_def)
  have d: "projectContext ?e (extractPath demo_request) demo_disk
        (codeFiles_of ?e (getAllFilePaths (extractPath demo_request) demo_project))
       = Some [lit ''File: src/App.jsx'' @ [NL] @ FENCE @ [NL] @ lit ''<b/>'' @ [NL] @ FENCE]"
    by (simp add: handler_defs demo_defs eval_defs)
  have g: "generateContent ?e (calls demo_run)
      (whole_project_prompt (lit ''Vue'') (join (lit ''\<newline>\<newline>---\<newline>\<newline>'')
         [lit ''File: src/App.jsx'' @ [NL] @ FENCE @ [NL] @ lit ''<b/>'' @ [NL] @ FENCE]))
      = Some (lit ''Sorry.'')"
    by (simp add: demo_env_def)
  have "47 \<in> set (pre @ block p c @ rest)" for pre p c rest
    by (simp add: block_def START_FILE_def lit_def)
  moreover have "47 \<notin> set (lit ''Sorry.'')"
    by (simp add: lit_def)
  ultimately have h: "\<nexists>pre p c rest. wf_block p c \<and> lit ''Sorry.'' = pre @ block p c @ rest"
    by metis
  from unparsable_response_is_reported [OF a b c d g h] a b c d h show ?thesis by simp
qed

text \<open>
  C2 as stated fails: the pattern does not ask that the end marker line ends with the
  path. In the response below the only end marker line is that of the path \<^verbatim>\<open>ab\<close>, so no
  start marker line has an end marker line with the identical path; yet the parser gives
  an entry for the path \<^verbatim>\<open>a\<close>, and the handler sends an archive.
\<close>

theorem end_marker_of_longer_path_closes_block:
  "\<not> spec_has_block (lit ''// START_FILE: a\<newline>x\<newline>// END_FILE: ab'')
   \<and> parseAIResponse (lit ''// START_FILE: a\<newline>x\<newline>// END_FILE: ab'')
       = [\<lparr>path = lit ''a'', content = lit ''x''\<rparr>]
   \<and> fst (convert_whole_project
        (demo_env True (\<lambda>k p. Some (lit ''// START_FILE: a\<newline>x\<newline>// END_FILE: ab'')))
        demo_request demo_run)
       = ZipFiles (lit ''converted-app.zip'') [(lit ''a'', [120])]"
proof -
  have a: "\<not> spec_has_block (lit ''// START_FILE: a\<newline>x\<newline>// END_FILE: ab'')"
    by (simp add: spec_has_block_def spec_marker_path_def eval_defs)
  have b: "parseAIResponse (lit ''// START_FILE: a\<newline>x\<newline>// END_FILE: ab'')
       = [\<lparr>path = lit ''a'', content = lit ''x''\<rparr>]"
    by (simp add: parseAIResponse_def parseAIResponse_from.simps fileRegex_at_def
        convert_block_def markdownFence_match_def fence_tail_def eval_defs)
  have c: "fst (convert_whole_project
        (demo_env True (\<lambda>k p. Some (lit ''// START_FILE: a\<newline>x\<newline>// END_FILE: ab'')))
        demo_request demo_run)
       = ZipFiles (lit ''converted-app.zip'') [(lit ''a'', [120])]"
    by (simp add: handler_defs demo_defs Let_def parseAIResponse_def parseAIResponse_from.simps
        fileRegex_at_def convert_block_def markdownFence_match_def fence_tail_def eval_defs)
  from a b c show ?thesis by simp
qed




text \<open>
  C8. Let a file of the extracted project have an extension, as \<^verbatim>\<open>path.extname\<close> gives it,
  outside the allow-list. Replacing the content of that file by any other content
  changes nothing in what either handler does: the trace, which holds every prompt sent
  to the model in order, and the whole-project response are the same. So no prompt
  depends on the content of the file. The archive of the per-file handler holds the
  file with the bytes it was extracted with.
\<close>

theorem disallowed_extension_never_sent_nor_altered:
  assumes "extname e p \<notin> set CODE_EXTENSIONS"
    and "readFileSync (disk r1) p = Some old"
    and "writeFileSync (disk r1) p new = Some d'"
  shows "fst (whole_project_steps e req z ts (r1\<lparr>disk := d'\<rparr>))
           = fst (whole_project_steps e req z ts r1)
       \<and> trace (snd (whole_project_steps e req z ts (r1\<lparr>disk := d'\<rparr>)))
           = trace (snd (whole_project_steps e req z ts r1))
       \<and> trace (snd (per_file_steps e req z ts (r1\<lparr>disk := d'\<rparr>)))
           = trace (snd (per_file_steps e req z ts r1))
       \<and> (\<forall>a folder q. fst (per_file_steps e req z ts r1) = ZipFolder a folder
              \<and> p = extractPath req @ q \<and> q \<noteq> []
            \<longrightarrow> readFileSync folder q = Some old)"
proof -
  define root where "root = extractPath req"
  define r1' where "r1' = r1\<lparr>disk := d'\<rparr>"
  have notcode: "p \<notin> set (codeFiles_of e fs)" for fs
    using assms(1) codeFiles_allowed by blast
  have read': "readFileSync d' x = (if x = p then Some new else readFileSync (disk r1) x)" for x
    using assms(3) by (rule writeFileSync_read)
  have none_iff: "readdirSync d' root = None \<longleftrightarrow> readdirSync (disk r1) root = None"
  proof
    assume "readdirSync d' root = None"
    show "readdirSync (disk r1) root = None"
    proof (cases "readdirSync (disk r1) root")
      case (Some l)
      from overwrite_same_directories [OF assms(2,3) this] \<open>readdirSync d' root = None\<close>
      show ?thesis by simp
    qed simp
  next
    assume "readdirSync (disk r1) root = None"
    with assms(2,3) show "readdirSync d' root = None" by (rule overwrite_readdir_None)
  qed
  have same_files: "getAllFilePaths root l' = getAllFilePaths root l"
    if "readdirSync (disk r1) root = Some l" "readdirSync d' root = Some l'" for l l'
    using overwrite_same_directories [OF assms(2,3) that(1)] that(2) by simp
  have whole: "fst (whole_project_steps e req z ts r1') = fst (whole_project_steps e req z ts r1)
       \<and> trace (snd (whole_project_steps e req z ts r1'))
           = trace (snd (whole_project_steps e req z ts r1))"
  proof (rule whole_project_steps_cong)
    show "calls r1' = calls r1" "trace r1' = trace r1" by (simp_all add: r1'_def)
    show "readdirSync (disk r1') (extractPath req) = None
        \<longleftrightarrow> readdirSync (disk r1) (extractPath req) = None"
      using none_iff by (simp add: r1'_def root_def)
    show "getAllFilePaths (extractPath req) l' = getAllFilePaths (extractPath req) l"
      if "readdirSync (disk r1) (extractPath req) = Some l"
        "readdirSync (disk r1') (extractPath req) = Some l'" for l l'
      using same_files [of l l'] that by (simp add: r1'_def root_def)
    show "readFileSync (disk r1') f = readFileSync (disk r1) f"
      if "f \<in> set (codeFiles_of e (getAllFilePaths (extractPath req) l))" for l f
      using that notcode read' by (auto simp: r1'_def)
  qed
  have per_trace: "trace (snd (per_file_steps e req z ts r1'))
           = trace (snd (per_file_steps e req z ts r1))"
  proof (cases "readdirSync (disk r1) root")
    case None
    with none_iff have "readdirSync (disk r1') root = None" by (simp add: r1'_def)
    with None show ?thesis by (simp add: per_file_steps_def root_def r1'_def)
  next
    case (Some l)
    with none_iff obtain l' where l': "readdirSync (disk r1') root = Some l'"
      by (auto simp: r1'_def)
    define files where "files = codeFiles_of e (getAllFilePaths root l)"
    have files': "codeFiles_of e (getAllFilePaths root l') = files"
      using same_files [OF Some] l' by (simp add: files_def r1'_def)
    have "agree_except p (disk r1) (disk r1')"
      using read' by (simp add: agree_except_def r1'_def)
    moreover have "calls r1 = calls r1'" "trace r1 = trace r1'" by (simp_all add: r1'_def)
    moreover have "p \<notin> set files" using notcode by (simp add: files_def)
    ultimately have eq: "fst (convert_each e ts files r1) = fst (convert_each e ts files r1')"
      "trace (snd (convert_each e ts files r1)) = trace (snd (convert_each e ts files r1'))"
      using convert_each_agree [of p r1 r1' files e ts] by simp_all
    have t: "trace (snd (per_file_steps e req z ts r1)) = trace (snd (convert_each e ts files r1))"
      using Some
      by (simp add: per_file_steps_def root_def [symmetric] files_def [symmetric] Let_def
          split_beta split: option.splits)
    have t': "trace (snd (per_file_steps e req z ts r1')) = trace (snd (convert_each e ts files r1'))"
      using l'
      by (simp add: per_file_steps_def root_def [symmetric] files' Let_def
          split_beta split: option.splits)
    from t t' eq(2) show ?thesis by simp
  qed
  have bytes: "readFileSync folder q = Some old"
    if res: "fst (per_file_steps e req z ts r1) = ZipFolder a folder"
      and pq: "p = extractPath req @ q" and ne: "q \<noteq> []" for a folder q
  proof -
    from res obtain l where l: "readdirSync (disk r1) root = Some l"
      by (cases "readdirSync (disk r1) root") (auto simp: per_file_steps_def root_def)
    define files where "files = codeFiles_of e (getAllFilePaths root l)"
    define r2 where "r2 = snd (convert_each e ts files r1)"
    from res l have "readdirSync (disk r2) root = Some folder"
      by (auto simp: per_file_steps_def root_def [symmetric] files_def [symmetric] Let_def
          split_beta r2_def dest: send_archive_ZipFolder split: option.splits if_splits)
    from readFileSync_below [OF this ne] have "readFileSync folder q = readFileSync (disk r2) p"
      by (simp add: pq root_def)
    moreover have "readFileSync (disk r2) p = Some old"
      unfolding r2_def using assms(2) notcode convert_each_untouched [of p files e ts r1]
      by (simp add: files_def)
    ultimately show ?thesis by simp
  qed
  from whole per_trace bytes show ?thesis unfolding r1'_def by blast
qed

theorem disallowed_extension_never_sent_nor_altered_witness:
  "extname (demo_env True (\<lambda>k p. Some (lit ''```vue\<newline><p/>\<newline>```'')))
       (extractPath demo_request @ [lit ''src'', lit ''logo.png'']) \<notin> set CODE_EXTENSIONS
   \<and> readFileSync demo_disk (extractPath demo_request @ [lit ''src'', lit ''logo.png''])
       = Some [137, 80]
   \<and> writeFileSync demo_disk (extractPath demo_request @ [lit ''src'', lit ''logo.png'']) [71]
       = Some [(requestTempDir demo_request, Dir [(lit ''source'', Dir
           [(lit ''src'', Dir [(lit ''App.jsx'', File [60, 98, 47, 62]), (lit ''logo.png'', File [71])]),
            (lit ''node_modules'', Dir [(lit ''dep.js'', File [49])])])])]
   \<and> fst (per_file_steps (demo_env True (\<lambda>k p. Some (lit ''```vue\<newline><p/>\<newline>```'')))
        demo_request demo_upload (lit ''Vue'') \<lparr>disk = demo_disk, calls = 0, trace = []\<rparr>)
       = ZipFolder (lit ''converted-app.zip'')
          [(lit ''src'', Dir [(lit ''App.jsx'', File [60, 112, 47, 62]), (lit ''logo.png'', File [137, 80])]),
           (lit ''node_modules'', Dir [(lit ''dep.js'', File [49])])]
   \<and> readFileSync
        [(lit ''src'', Dir [(lit ''App.jsx'', File [60, 112, 47, 62]), (lit ''logo.png'', File [137, 80])]),
         (lit ''node_modules'', Dir [(lit ''dep.js'', File [49])])]
        [lit ''src'', lit ''logo.png''] = Some [137, 80]
   \<and> trace (snd (per_file_steps (demo_env True (\<lambda>k p. Some (lit ''```vue\<newline><p/>\<newline>```'')))
        demo_request demo_upload (lit ''Vue'')
        (\<lparr>disk = demo_disk, calls = 0, trace = []\<rparr>\<lparr>disk :=
           [(requestTempDir demo_request, Dir [(lit ''source'', Dir
             [(lit ''src'', Dir [(lit ''App.jsx'', File [60, 98, 47, 62]), (lit ''logo.png'', File [71])]),
              (lit ''node_modules'', Dir [(lit ''dep.js'', File [49])])])])]\<rparr>)))
       = trace (snd (per_file_steps (demo_env True (\<lambda>k p. Some (lit ''```vue\<newline><p/>\<newline>```'')))
        demo_request demo_upload (lit ''Vue'') \<lparr>disk = demo_disk, calls = 0, trace = []\<rparr>))"
proof -
  let ?e = "demo_env True (\<lambda>k p. Some (lit ''```vue\<newline><p/>\<newline>```''))"
  let ?p = "extractPath demo_request @ [lit ''src'', lit ''logo.png'']"
  let ?r = "\<lparr>disk = demo_disk, calls = 0, trace = []\<rparr>"
  let ?d = "[(requestTempDir demo_request, Dir [(lit ''source'', Dir
           [(lit ''src'', Dir [(lit ''App.jsx'', File [60, 98, 47, 62]), (lit ''logo.png'', File [71])]),
            (lit ''node_modules'', Dir [(lit ''dep.js'', File [49])])])])]"
  have a: "extname ?e ?p \<notin> set CODE_EXTENSIONS"
    by (simp add: demo_env_def demo_extname_def extractPath_def CODE_EXTENSIONS_def lit_def)
  have b: "readFileSync (disk ?r) ?p = Some [137, 80]"
    by (simp add: demo_disk_def demo_project_def extractPath_def lit_def)
  have c: "writeFileSync (disk ?r) ?p [71] = Some ?d"
    by (simp add: demo_disk_def demo_project_def extractPath_def lit_def)
  have d: "fst (per_file_steps ?e demo_request demo_upload (lit ''Vue'') ?r)
       = ZipFolder (lit ''converted-app.zip'')
          [(lit ''src'', Dir [(lit ''App.jsx'', File [60, 112, 47, 62]), (lit ''logo.png'', File [137, 80])]),
           (lit ''node_modules'', Dir [(lit ''dep.js'', File [49])])]"
    by (simp add: handler_defs demo_defs eval_defs parseCodeFromResponse_def
        codeBlockRegex_at_def Let_def)
  have f: "readFileSync
        [(lit ''src'', Dir [(lit ''App.jsx'', File [60, 112, 47, 62]), (lit ''logo.png'', File [137, 80])]),
         (lit ''node_modules'', Dir [(lit ''dep.js'', File [49])])]
        [lit ''src'', lit ''logo.png''] = Some [137, 80]"
    by (simp add: lit_def)
  from disallowed_extension_never_sent_nor_altered
    [OF a b c, of demo_request demo_upload "lit ''Vue''"]
  have "trace (snd (per_file_steps ?e demo_request demo_upload (lit ''Vue'') (?r\<lparr>disk := ?d\<rparr>)))
       = trace (snd (per_file_steps ?e demo_request demo_upload (lit ''Vue'') ?r))"
    by blast
  with a b c d f show ?thesis by simp
qed

end
